theory Spec2Isabelle
  imports Complex_Main
begin

section \<open>The environment of the emulator\<close>

text \<open>
  The emulator \<^verbatim>\<open>src/emulation/mqtt_emulator.py\<close> reads a process-wide random source, two
  clocks and a stop flag set by a signal handler, and it writes to one MQTT client. The
  model threads all of them through one record. Each input of the environment is a sequence
  with a cursor: reading it returns the element under the cursor and advances the cursor.

  Python's floats are modelled as real numbers, so the theorems below are about the
  arithmetic the code writes down, not about its binary rounding.
\<close>

datatype json = JNum real | JInt int | JStr string | JBool bool

type_synonym payload = "(string \<times> json) list"

record publish_call =
  topic :: string
  body :: payload
  call_qos :: int
  retain :: bool

datatype event = Publish publish_call | Sleep real | LoopStop | Disconnect

datatype exn = PublishError | KeyError

datatype outcome = Done | Raised exn

record world =
  rand_draws :: "nat \<Rightarrow> real"
  rand_pos :: nat
  wall_clock :: "nat \<Rightarrow> string"
  wall_pos :: nat
  mono_clock :: "nat \<Rightarrow> real"
  mono_pos :: nat
  stop_polls :: "nat \<Rightarrow> bool"
  poll_pos :: nat
  publish_raises :: "nat \<Rightarrow> bool"
  publish_pos :: nat
  trace :: "event list"

text \<open>
  \<^verbatim>\<open>random.random()\<close> returns the next draw of the source. \<^verbatim>\<open>random.uniform(a, b)\<close> is
  \<^verbatim>\<open>a + (b - a) * random()\<close> in CPython. \<^verbatim>\<open>random.gauss(mu, sigma)\<close> is \<^verbatim>\<open>mu + z * sigma\<close>
  for a standard normal variate \<open>z\<close>, which the model takes from the same sequence.
\<close>

definition random_random :: "world \<Rightarrow> real \<times> world" where
  "random_random w = (rand_draws w (rand_pos w), w\<lparr>rand_pos := rand_pos w + 1\<rparr>)"

definition random_uniform :: "real \<Rightarrow> real \<Rightarrow> world \<Rightarrow> real \<times> world" where
  "random_uniform a b w = (case random_random w of (r, w') \<Rightarrow> (a + (b - a) * r, w'))"

definition random_gauss :: "real \<Rightarrow> real \<Rightarrow> world \<Rightarrow> real \<times> world" where
  "random_gauss mu sigma w = (case random_random w of (z, w') \<Rightarrow> (mu + z * sigma, w'))"

section \<open>clamp and RandomWalk\<close>

definition clamp :: "real \<Rightarrow> real \<Rightarrow> real \<Rightarrow> real" where
  "clamp x a b = max a (min b x)"

record RandomWalk =
  v :: real
  step :: real
  lo :: real
  hi :: real

definition RandomWalk_init :: "real \<Rightarrow> real \<Rightarrow> real \<Rightarrow> real \<Rightarrow> RandomWalk" where
  "RandomWalk_init start st a b = \<lparr>v = start, step = st, lo = a, hi = b\<rparr>"

definition RandomWalk_next :: "RandomWalk \<Rightarrow> real \<Rightarrow> world \<Rightarrow> real \<times> RandomWalk \<times> world" where
  "RandomWalk_next rw jitter w =
     (case random_uniform (- step rw) (step rw) w of (u, w1) \<Rightarrow>
      let rw1 = rw\<lparr>v := v rw + u\<rparr> in
      case random_gauss 0 jitter w1 of (n, w2) \<Rightarrow>
      let rw2 = rw1\<lparr>v := v rw1 + n * 0.01 * (hi rw1 - lo rw1)\<rparr>;
          rw3 = rw2\<lparr>v := clamp (v rw2) (lo rw2) (hi rw2)\<rparr>
      in (v rw3, rw3, w2))"

text \<open>\<open>N\<close> calls of \<^verbatim>\<open>next\<close> in a row, one per jitter scale of the list; each call is recorded
  with the value it returned and the walk as it was stored after the call.\<close>

fun advances :: "RandomWalk \<Rightarrow> real list \<Rightarrow> world \<Rightarrow> (real \<times> RandomWalk) list \<times> RandomWalk \<times> world" where
  "advances rw [] w = ([], rw, w)"
| "advances rw (j # js) w =
     (case RandomWalk_next rw j w of (x, rw', w') \<Rightarrow>
      case advances rw' js w' of (xs, rw'', w'') \<Rightarrow> ((x, rw') # xs, rw'', w''))"


section \<open>Rounding and formatting\<close>

text \<open>
  \<^verbatim>\<open>round(x, n)\<close> of Python rounds \<open>x\<close> to \<open>n\<close> decimal places, a tie going to the even
  neighbour.
\<close>

definition round_half_even :: "real \<Rightarrow> int" where
  "round_half_even y =
     (let f = \<lfloor>y\<rfloor>; d = y - of_int f
      in if d < 1 / 2 then f else if 1 / 2 < d then f + 1 else if even f then f else f + 1)"

definition round_py :: "real \<Rightarrow> nat \<Rightarrow> real" where
  "round_py x n = of_int (round_half_even (x * 10 ^ n)) / 10 ^ n"

fun str_nat :: "nat \<Rightarrow> string" where
  "str_nat n =
     (if n < 10 then [''0123456789'' ! n]
      else str_nat (n div 10) @ [''0123456789'' ! (n mod 10)])"

declare str_nat.simps [simp del]

definition str_int :: "int \<Rightarrow> string" where
  "str_int i = (if i < 0 then CHR ''-'' # str_nat (nat (- i)) else str_nat (nat i))"

section \<open>DeviceEmulator\<close>

record DeviceEmulator =
  site :: string
  room :: string
  device :: string
  interval :: real
  qos :: int
  dp_channels :: "int list"
  temp :: RandomWalk
  rh :: RandomWalk
  press_pa :: RandomWalk
  gas :: RandomWalk
  iaq :: RandomWalk
  voc_index :: RandomWalk
  co2_eq :: RandomWalk
  pm1 :: RandomWalk
  pm25 :: RandomWalk
  pm4 :: RandomWalk
  pm10 :: RandomWalk
  dp_walk :: "int \<rightharpoonup> RandomWalk"

text \<open>The loop of \<^verbatim>\<open>__init__\<close> that fills \<^verbatim>\<open>dp_walk\<close>, one walk per configured channel.\<close>

fun init_dp_walk :: "int list \<Rightarrow> (int \<rightharpoonup> RandomWalk) \<Rightarrow> world \<Rightarrow> (int \<rightharpoonup> RandomWalk) \<times> world" where
  "init_dp_walk [] m w = (m, w)"
| "init_dp_walk (ch # chs) m w =
     (let base = (if ch = 1 then - 80 else - 95) in
      case random_uniform (- 8) 8 w of (u, w') \<Rightarrow>
        init_dp_walk chs (m(ch \<mapsto> RandomWalk_init (base + u) 3 (- 300) 20)) w')"

definition DeviceEmulator_init ::
    "string \<Rightarrow> string \<Rightarrow> string \<Rightarrow> real \<Rightarrow> int \<Rightarrow> int list \<Rightarrow> world \<Rightarrow> DeviceEmulator \<times> world" where
  "DeviceEmulator_init s r d i q chs w =
     (case random_uniform 18 23 w of (t0, w1) \<Rightarrow>
      case random_uniform 35 55 w1 of (h0, w2) \<Rightarrow>
      case init_dp_walk chs Map.empty w2 of (m, w3) \<Rightarrow>
        (\<lparr>site = s, room = r, device = d, interval = i, qos = q, dp_channels = chs,
          temp = RandomWalk_init t0 0.05 10 35,
          rh = RandomWalk_init h0 0.2 15 90,
          press_pa = RandomWalk_init 101325 30 98000 104000,
          gas = RandomWalk_init 50000 500 1000 200000,
          iaq = RandomWalk_init 35 2.5 5 250,
          voc_index = RandomWalk_init 15 2 0 500,
          co2_eq = RandomWalk_init 600 15 400 2000,
          pm1 = RandomWalk_init 3 0.5 0 100,
          pm25 = RandomWalk_init 6 0.8 0 200,
          pm4 = RandomWalk_init 8 1 0 250,
          pm10 = RandomWalk_init 10 1.2 0 300,
          dp_walk = m\<rparr>, w3))"

definition base :: "DeviceEmulator \<Rightarrow> string" where
  "base emu = ''iot/'' @ site emu @ ''/'' @ room emu @ ''/'' @ device emu"

definition topic_bme :: "DeviceEmulator \<Rightarrow> string" where
  "topic_bme emu = base emu @ ''/telemetry/bme688''"

definition topic_sps :: "DeviceEmulator \<Rightarrow> string" where
  "topic_sps emu = base emu @ ''/telemetry/sps30''"

definition topic_dp :: "DeviceEmulator \<Rightarrow> int \<Rightarrow> string" where
  "topic_dp emu ch = base emu @ ''/telemetry/dp/'' @ str_int ch"

definition topic_status :: "DeviceEmulator \<Rightarrow> string" where
  "topic_status emu = base emu @ ''/status''"

text \<open>
  \<^verbatim>\<open>rfc3339_now()\<close> reads the wall clock. \<^verbatim>\<open>random.randint(a, b)\<close> maps a draw of the source
  to an integer of \<open>[a, b]\<close>. \<^verbatim>\<open>client.publish\<close> is the external publisher: the model records
  every call in the trace, and the environment decides whether the call raises. The JSON
  encoding of the payload is not modelled: the call carries the dictionary itself.
\<close>

definition rfc3339_now :: "world \<Rightarrow> string \<times> world" where
  "rfc3339_now w = (wall_clock w (wall_pos w), w\<lparr>wall_pos := wall_pos w + 1\<rparr>)"

definition random_randint :: "int \<Rightarrow> int \<Rightarrow> world \<Rightarrow> int \<times> world" where
  "random_randint a b w =
     (case random_random w of (r, w') \<Rightarrow> (a + \<lfloor>r * of_int (b - a + 1)\<rfloor>, w'))"

definition client_publish :: "string \<Rightarrow> payload \<Rightarrow> int \<Rightarrow> bool \<Rightarrow> world \<Rightarrow> outcome \<times> world" where
  "client_publish t p q r w =
     (if publish_raises w (publish_pos w) then Raised PublishError else Done,
      w\<lparr>publish_pos := publish_pos w + 1,
        trace := trace w @ [Publish \<lparr>topic = t, body = p, call_qos = q, retain = r\<rparr>]\<rparr>)"

definition publish_status :: "DeviceEmulator \<Rightarrow> bool \<Rightarrow> world \<Rightarrow> outcome \<times> world" where
  "publish_status emu online w =
     (case random_randint (- 70) (- 45) w of (rssi, w1) \<Rightarrow>
      case rfc3339_now w1 of (ts, w2) \<Rightarrow>
        client_publish (topic_status emu)
          [(''online'', JBool online), (''fw'', JStr ''emu-1.1.0''),
           (''rssi_dbm'', JInt rssi), (''ts'', JStr ts)]
          (qos emu) True w2)"

definition bme_payload :: "DeviceEmulator \<Rightarrow> string \<Rightarrow> world \<Rightarrow> payload \<times> DeviceEmulator \<times> world" where
  "bme_payload emu ts w =
     (case RandomWalk_next (temp emu) 0.5 w of (x1, temp', w1) \<Rightarrow>
      let t_c = round_py x1 2 in
      case RandomWalk_next (rh emu) 0.5 w1 of (x2, rh', w2) \<Rightarrow>
      let rh_pct = round_py x2 1 in
      case RandomWalk_next (press_pa emu) 0.5 w2 of (x3, press', w3) \<Rightarrow>
      let p_pa = round_py x3 0 in
      case RandomWalk_next (gas emu) 0.5 w3 of (x4, gas', w4) \<Rightarrow>
      let gas_ohm = round_py x4 0 in
      case RandomWalk_next (iaq emu) 0.5 w4 of (iaq0, iaq', w5) \<Rightarrow>
      case random_random w5 of (r1, w6) \<Rightarrow>
      case (if r1 < 0.02
            then case random_uniform 20 80 w6 of (e, w7) \<Rightarrow> (clamp (iaq0 + e) 5 250, w7)
            else (iaq0, w6)) of (iaq_val, w7) \<Rightarrow>
      case RandomWalk_next (voc_index emu) 0.5 w7 of (x5, voc', w8) \<Rightarrow>
      case random_uniform (- 3) 3 w8 of (noise, w9) \<Rightarrow>
      let voc_val = clamp (x5 + noise + 0.3 * (iaq_val - 35)) 0 500 in
      case RandomWalk_next (co2_eq emu) 0.5 w9 of (co2_0, co2', w10) \<Rightarrow>
      case random_random w10 of (r2, w11) \<Rightarrow>
      case (if r2 < 0.02
            then case random_uniform 100 300 w11 of (e, w12) \<Rightarrow> (clamp (co2_0 + e) 400 2000, w12)
            else (co2_0, w11)) of (co2_val, w12) \<Rightarrow>
        ([(''t_c'', JNum t_c), (''rh_pct'', JNum rh_pct), (''p_pa'', JNum p_pa),
          (''gas_ohm'', JNum gas_ohm), (''iaq'', JNum (round_py iaq_val 1)),
          (''voc_index'', JNum (round_py voc_val 1)), (''co2_eq'', JNum (round_py co2_val 0)),
          (''ts'', JStr ts)],
         emu\<lparr>temp := temp', rh := rh', press_pa := press', gas := gas', iaq := iaq',
             voc_index := voc', co2_eq := co2'\<rparr>,
         w12))"

definition sps_payload :: "DeviceEmulator \<Rightarrow> string \<Rightarrow> world \<Rightarrow> payload \<times> DeviceEmulator \<times> world" where
  "sps_payload emu ts w =
     (case random_random w of (r, w1) \<Rightarrow>
      case (if r < 0.015
            then case random_uniform 10 30 w1 of (bump, w2) \<Rightarrow>
              (emu\<lparr>pm25 := (pm25 emu)\<lparr>v := clamp (v (pm25 emu) + bump) 0 200\<rparr>,
                   pm10 := (pm10 emu)\<lparr>v := clamp (v (pm10 emu) + bump * 1.2) 0 300\<rparr>\<rparr>, w2)
            else (emu, w1)) of (emu1, w2) \<Rightarrow>
      case RandomWalk_next (pm1 emu1) 0.5 w2 of (y1, pm1', w3) \<Rightarrow>
      case RandomWalk_next (pm25 emu1) 0.5 w3 of (y2, pm25', w4) \<Rightarrow>
      case RandomWalk_next (pm4 emu1) 0.5 w4 of (y3, pm4', w5) \<Rightarrow>
      case RandomWalk_next (pm10 emu1) 0.5 w5 of (y4, pm10', w6) \<Rightarrow>
        ([(''pm1_0'', JNum (round_py y1 1)), (''pm2_5'', JNum (round_py y2 1)),
          (''pm4_0'', JNum (round_py y3 1)), (''pm10'', JNum (round_py y4 1)),
          (''ts'', JStr ts)],
         emu1\<lparr>pm1 := pm1', pm25 := pm25', pm4 := pm4', pm10 := pm10'\<rparr>,
         w6))"

definition dp_payload ::
    "DeviceEmulator \<Rightarrow> int \<Rightarrow> string \<Rightarrow> world \<Rightarrow> (exn + payload) \<times> DeviceEmulator \<times> world" where
  "dp_payload emu ch ts w =
     (case dp_walk emu ch of
        None \<Rightarrow> (Inl KeyError, emu, w)
      | Some rw \<Rightarrow>
          (case RandomWalk_next rw 0.5 w of (x, rw', w1) \<Rightarrow>
             (Inr [(''dp_pa'', JNum (round_py x 1)), (''ts'', JStr ts)],
              emu\<lparr>dp_walk := (dp_walk emu)(ch \<mapsto> rw')\<rparr>, w1)))"

text \<open>The loop over the channels at the end of \<^verbatim>\<open>publish_once\<close>.\<close>

fun publish_dp_loop :: "int list \<Rightarrow> DeviceEmulator \<Rightarrow> string \<Rightarrow> world \<Rightarrow> outcome \<times> DeviceEmulator \<times> world" where
  "publish_dp_loop [] emu ts w = (Done, emu, w)"
| "publish_dp_loop (ch # chs) emu ts w =
     (case dp_payload emu ch ts w of
        (Inl e, emu1, w1) \<Rightarrow> (Raised e, emu1, w1)
      | (Inr p, emu1, w1) \<Rightarrow>
          (case client_publish (topic_dp emu1 ch) p (qos emu1) False w1 of
             (Raised e, w2) \<Rightarrow> (Raised e, emu1, w2)
           | (Done, w2) \<Rightarrow> publish_dp_loop chs emu1 ts w2))"

definition publish_once :: "DeviceEmulator \<Rightarrow> world \<Rightarrow> outcome \<times> DeviceEmulator \<times> world" where
  "publish_once emu w =
     (case rfc3339_now w of (ts, w1) \<Rightarrow>
      case bme_payload emu ts w1 of (p1, emu1, w2) \<Rightarrow>
      case client_publish (topic_bme emu1) p1 (qos emu1) False w2 of
        (Raised e, w3) \<Rightarrow> (Raised e, emu1, w3)
      | (Done, w3) \<Rightarrow>
      case sps_payload emu1 ts w3 of (p2, emu2, w4) \<Rightarrow>
      case client_publish (topic_sps emu2) p2 (qos emu2) False w4 of
        (Raised e, w5) \<Rightarrow> (Raised e, emu2, w5)
      | (Done, w5) \<Rightarrow> publish_dp_loop (dp_channels emu2) emu2 ts w5)"


section \<open>main\<close>

text \<open>
  \<^verbatim>\<open>main\<close> is modelled from the construction of the emulators on: the arguments are taken as
  parsed, the device names and the channel identifiers as lists. \<^verbatim>\<open>time.time()\<close> reads the
  second clock, \<^verbatim>\<open>time.sleep\<close> is recorded in the trace, and reading \<^verbatim>\<open>stop["flag"]\<close> at
  the head of the loop reads what the signal handler has stored by then.
\<close>

record args =
  arg_site :: string
  arg_room :: string
  arg_devices :: "string list"
  arg_dp_channels :: "int list"
  arg_interval :: real
  arg_qos :: int

fun make_emus :: "args \<Rightarrow> string list \<Rightarrow> world \<Rightarrow> DeviceEmulator list \<times> world" where
  "make_emus a [] w = ([], w)"
| "make_emus a (dev # devs) w =
     (case DeviceEmulator_init (arg_site a) (arg_room a) dev (arg_interval a) (arg_qos a)
             (arg_dp_channels a) w of (emu, w1) \<Rightarrow>
      case make_emus a devs w1 of (emus, w2) \<Rightarrow> (emu # emus, w2))"

text \<open>\<^verbatim>\<open>for emu in emus: emu.publish_status(online)\<close>: an exception leaves the loop.\<close>

fun publish_status_all :: "DeviceEmulator list \<Rightarrow> bool \<Rightarrow> world \<Rightarrow> outcome \<times> world" where
  "publish_status_all [] online w = (Done, w)"
| "publish_status_all (emu # emus) online w =
     (case publish_status emu online w of
        (Raised e, w1) \<Rightarrow> (Raised e, w1)
      | (Done, w1) \<Rightarrow> publish_status_all emus online w1)"

text \<open>\<^verbatim>\<open>for emu in emus: emu.publish_once()\<close>.\<close>

fun publish_round :: "DeviceEmulator list \<Rightarrow> world \<Rightarrow> outcome \<times> DeviceEmulator list \<times> world" where
  "publish_round [] w = (Done, [], w)"
| "publish_round (emu # emus) w =
     (case publish_once emu w of
        (Raised e, emu1, w1) \<Rightarrow> (Raised e, emu1 # emus, w1)
      | (Done, emu1, w1) \<Rightarrow>
          (case publish_round emus w1 of (r, emus1, w2) \<Rightarrow> (r, emu1 # emus1, w2)))"

definition time_time :: "world \<Rightarrow> real \<times> world" where
  "time_time w = (mono_clock w (mono_pos w), w\<lparr>mono_pos := mono_pos w + 1\<rparr>)"

definition time_sleep :: "real \<Rightarrow> world \<Rightarrow> world" where
  "time_sleep d w = w\<lparr>trace := trace w @ [Sleep d]\<rparr>"

definition stop_flag :: "world \<Rightarrow> bool \<times> world" where
  "stop_flag w = (stop_polls w (poll_pos w), w\<lparr>poll_pos := poll_pos w + 1\<rparr>)"

text \<open>The body of the \<^verbatim>\<open>while\<close> loop: one round and the sleep after it.\<close>

definition loop_body :: "real \<Rightarrow> DeviceEmulator list \<Rightarrow> world \<Rightarrow> outcome \<times> DeviceEmulator list \<times> world" where
  "loop_body ival emus w =
     (case time_time w of (start, w1) \<Rightarrow>
      case publish_round emus w1 of
        (Raised e, emus1, w2) \<Rightarrow> (Raised e, emus1, w2)
      | (Done, emus1, w2) \<Rightarrow>
          (case time_time w2 of (now, w3) \<Rightarrow>
           let sleep = ival - (now - start)
           in (Done, emus1, if sleep > 0 then time_sleep sleep w3 else w3)))"

text \<open>The loop runs until the flag is seen set or a round raises; it need not end.\<close>

partial_function (option) main_loop ::
    "real \<Rightarrow> DeviceEmulator list \<Rightarrow> world \<Rightarrow> (outcome \<times> DeviceEmulator list \<times> world) option" where
  "main_loop ival emus w =
     (case stop_flag w of (flag, w1) \<Rightarrow>
      if flag then Some (Done, emus, w1)
      else (case loop_body ival emus w1 of
              (Raised e, emus1, w2) \<Rightarrow> Some (Raised e, emus1, w2)
            | (Done, emus1, w2) \<Rightarrow> main_loop ival emus1 w2))"

text \<open>
  \<^verbatim>\<open>try: ... finally: ...\<close>: the offline loop runs however the \<^verbatim>\<open>while\<close> loop ended. An
  exception of the offline loop replaces the outcome and skips \<^verbatim>\<open>loop_stop\<close> and
  \<^verbatim>\<open>disconnect\<close>; otherwise the outcome of the \<^verbatim>\<open>while\<close> loop stands.
\<close>

definition main :: "args \<Rightarrow> world \<Rightarrow> (outcome \<times> world) option" where
  "main a w =
     (case make_emus a (arg_devices a) w of (emus, w1) \<Rightarrow>
      case publish_status_all emus True w1 of
        (Raised e, w2) \<Rightarrow> Some (Raised e, w2)
      | (Done, w2) \<Rightarrow>
          (case main_loop (arg_interval a) emus w2 of
             None \<Rightarrow> None
           | Some (r, emus1, w3) \<Rightarrow>
               (case publish_status_all emus1 False w3 of
                  (Raised e, w4) \<Rightarrow> Some (Raised e, w4)
                | (Done, w4) \<Rightarrow> Some (r, w4\<lparr>trace := trace w4 @ [LoopStop, Disconnect]\<rparr>))))"


section \<open>A concrete environment\<close>

text \<open>An environment at its start, given the random draws, the clock readings, the polls of
  the stop flag and the publish calls that raise. The wall clock reads \<open>T0\<close>, \<open>T1\<close>, ...\<close>

definition initial_world ::
    "(nat \<Rightarrow> real) \<Rightarrow> (nat \<Rightarrow> real) \<Rightarrow> (nat \<Rightarrow> bool) \<Rightarrow> (nat \<Rightarrow> bool) \<Rightarrow> world" where
  "initial_world ds clk polls raises =
     \<lparr>rand_draws = ds, rand_pos = 0, wall_clock = (\<lambda>n. CHR ''T'' # str_nat n), wall_pos = 0,
      mono_clock = clk, mono_pos = 0, stop_polls = polls, poll_pos = 0,
      publish_raises = raises, publish_pos = 0, trace = []\<rparr>"

text \<open>An emulator as \<^verbatim>\<open>main\<close> builds it for device \<open>d1\<close> with the one channel \<open>1\<close>, and
  the environment right after its construction, for given random draws.\<close>

definition example_world :: "(nat \<Rightarrow> real) \<Rightarrow> world" where
  "example_world ds = initial_world ds real (\<lambda>n. False) (\<lambda>n. False)"

definition example_emu :: "(nat \<Rightarrow> real) \<Rightarrow> DeviceEmulator" where
  "example_emu ds = fst (DeviceEmulator_init ''s'' ''r'' ''d1'' 5 0 [1] (example_world ds))"

definition example_start :: "(nat \<Rightarrow> real) \<Rightarrow> world" where
  "example_start ds = snd (DeviceEmulator_init ''s'' ''r'' ''d1'' 5 0 [1] (example_world ds))"

definition draws_calm :: "nat \<Rightarrow> real" where
  "draws_calm n = (if n = 0 then 0.4 else if n = 3 then 0.9
     else if n = 4 \<or> n = 12 \<or> n = 15 then 0 else if n = 16 then 0.75 else 0.5)"

definition draws_excursion :: "nat \<Rightarrow> real" where
  "draws_excursion n = (if n = 12 \<or> n = 19 then 0 else if n = 13 \<or> n = 20 then 0.01 else 0.5)"

definition draws_event :: "nat \<Rightarrow> real" where
  "draws_event n = (if n = 3 then 0.01
     else if n = 6 \<or> n = 8 \<or> n = 10 \<or> n = 12 \<or> n = 15 \<or> n = 17 \<or> n = 19 \<or> n = 21 then 0
     else 0.5)"

definition draws_half :: "nat \<Rightarrow> real" where
  "draws_half n = 0.5"

section \<open>Traces of publish calls\<close>

text \<open>
  The publish calls and the sleeps of a trace; the shape of a call (its topic, its retain
  flag and the \<open>online\<close> field of its payload, if any); the calls a device makes for its
  status and in one round. Of \<open>m\<close> calls in a row from position \<open>p\<close>, \<open>attempts\<close> counts those
  made when the first call that raises ends the row, and \<open>fails\<close> says that one raises.
  The remaining predicates describe what a piece of the program did to the environment.
\<close>

fun publishes :: "event list \<Rightarrow> publish_call list" where
  "publishes [] = []"
| "publishes (Publish c # es) = c # publishes es"
| "publishes (Sleep d # es) = publishes es"
| "publishes (LoopStop # es) = publishes es"
| "publishes (Disconnect # es) = publishes es"

fun sleeps :: "event list \<Rightarrow> real list" where
  "sleeps [] = []"
| "sleeps (Sleep d # es) = d # sleeps es"
| "sleeps (Publish c # es) = sleeps es"
| "sleeps (LoopStop # es) = sleeps es"
| "sleeps (Disconnect # es) = sleeps es"

type_synonym call_shape = "string \<times> bool \<times> json option"

definition shape :: "publish_call \<Rightarrow> call_shape" where
  "shape c = (topic c, retain c, map_of (body c) ''online'')"

fun attempts :: "(nat \<Rightarrow> bool) \<Rightarrow> nat \<Rightarrow> nat \<Rightarrow> nat" where
  "attempts R p 0 = 0"
| "attempts R p (Suc m) = (if R p then 1 else Suc (attempts R (Suc p) m))"

fun fails :: "(nat \<Rightarrow> bool) \<Rightarrow> nat \<Rightarrow> nat \<Rightarrow> bool" where
  "fails R p 0 = False"
| "fails R p (Suc m) = (if R p then True else fails R (Suc p) m)"

definition status_shape :: "DeviceEmulator \<Rightarrow> bool \<Rightarrow> call_shape" where
  "status_shape emu online = (topic_status emu, True, Some (JBool online))"

definition round_shapes :: "DeviceEmulator \<Rightarrow> call_shape list" where
  "round_shapes emu =
     (topic_bme emu, False, None) # (topic_sps emu, False, None) #
     map (\<lambda>ch. (topic_dp emu ch, False, None)) (dp_channels emu)"

definition pubs :: "world \<Rightarrow> publish_call list \<Rightarrow> world \<Rightarrow> bool" where
  "pubs w cs w' \<longleftrightarrow>
     rand_draws w' = rand_draws w \<and> wall_clock w' = wall_clock w \<and>
     mono_clock w' = mono_clock w \<and> mono_pos w' = mono_pos w \<and>
     stop_polls w' = stop_polls w \<and> poll_pos w' = poll_pos w \<and>
     publish_raises w' = publish_raises w \<and>
     publish_pos w' = publish_pos w + length cs \<and>
     trace w' = trace w @ map Publish cs"

definition calls_ok :: "(nat \<Rightarrow> bool) \<Rightarrow> nat \<Rightarrow> call_shape list \<Rightarrow> publish_call list \<Rightarrow> outcome \<Rightarrow> bool" where
  "calls_ok R p S cs out \<longleftrightarrow>
     length cs = attempts R p (length S) \<and> map shape cs = take (length cs) S \<and>
     out = (if fails R p (length S) then Raised PublishError else Done)"

definition ident :: "DeviceEmulator \<Rightarrow> string \<times> string \<times> string \<times> int \<times> int list" where
  "ident emu = (site emu, room emu, device emu, qos emu, dp_channels emu)"

definition has_ts :: "string \<Rightarrow> publish_call \<Rightarrow> bool" where
  "has_ts ts c \<longleftrightarrow> map_of (body c) ''ts'' = Some (JStr ts)"

definition good :: "DeviceEmulator \<Rightarrow> bool" where
  "good emu \<longleftrightarrow> list_all (\<lambda>ch. dp_walk emu ch \<noteq> None) (dp_channels emu)"

definition step_ok :: "world \<Rightarrow> call_shape list \<Rightarrow> publish_call list \<Rightarrow> outcome \<Rightarrow> world \<Rightarrow> bool" where
  "step_ok w S cs out w' \<longleftrightarrow>
     pubs w cs w' \<and> calls_ok (publish_raises w) (publish_pos w) S cs out"

definition runs :: "world \<Rightarrow> publish_call list \<Rightarrow> world \<Rightarrow> bool" where
  "runs w cs w' \<longleftrightarrow>
     rand_draws w' = rand_draws w \<and> wall_clock w' = wall_clock w \<and>
     mono_clock w' = mono_clock w \<and> stop_polls w' = stop_polls w \<and>
     publish_raises w' = publish_raises w \<and>
     publish_pos w' = publish_pos w + length cs \<and>
     publishes (trace w') = publishes (trace w) @ cs"

definition run_ok :: "world \<Rightarrow> call_shape list \<Rightarrow> publish_call list \<Rightarrow> outcome \<Rightarrow> world \<Rightarrow> bool" where
  "run_ok w S cs out w' \<longleftrightarrow>
     runs w cs w' \<and> calls_ok (publish_raises w) (publish_pos w) S cs out"

section \<open>The expected sequence of publish calls\<close>

text \<open>
  The sequence the specification describes, written from the arguments alone: the status
  calls of all devices, and one round, which is for each device in order the environmental,
  the particulate and one differential-pressure call per channel. \<open>first_stop f p N\<close> says
  that the stop flag is seen set at the \<open>N\<close>-th poll from \<open>p\<close> on and not before, so that
  \<open>N\<close> rounds are started.
\<close>

definition device_topic :: "args \<Rightarrow> string \<Rightarrow> string \<Rightarrow> string" where
  "device_topic a dev suffix = ''iot/'' @ arg_site a @ ''/'' @ arg_room a @ ''/'' @ dev @ suffix"

definition expected_status :: "args \<Rightarrow> bool \<Rightarrow> call_shape list" where
  "expected_status a online =
     map (\<lambda>dev. (device_topic a dev ''/status'', True, Some (JBool online))) (arg_devices a)"

definition device_round :: "args \<Rightarrow> string \<Rightarrow> call_shape list" where
  "device_round a dev =
     (device_topic a dev ''/telemetry/bme688'', False, None) #
     (device_topic a dev ''/telemetry/sps30'', False, None) #
     map (\<lambda>ch. (device_topic a dev (''/telemetry/dp/'' @ str_int ch), False, None))
       (arg_dp_channels a)"

definition expected_round :: "args \<Rightarrow> call_shape list" where
  "expected_round a = concat (map (device_round a) (arg_devices a))"

fun first_stop :: "(nat \<Rightarrow> bool) \<Rightarrow> nat \<Rightarrow> nat \<Rightarrow> bool" where
  "first_stop f p 0 = f p"
| "first_stop f p (Suc N) = (if f p then False else first_stop f (Suc p) N)"

text \<open>Arguments for two devices with one channel, and an environment in which the stop flag
  is set from the \<open>N\<close>-th poll on and the publish calls given by \<open>R\<close> raise.\<close>

definition example_args :: args where
  "example_args = \<lparr>arg_site = ''s'', arg_room = ''r'', arg_devices = [''d1'', ''d2''],
     arg_dp_channels = [1], arg_interval = 5, arg_qos = 0\<rparr>"

definition stop_at :: "nat \<Rightarrow> nat \<Rightarrow> bool" where
  "stop_at N n = (N \<le> n)"

definition raises_at :: "nat \<Rightarrow> nat \<Rightarrow> bool" where
  "raises_at k n = (n = k)"

definition raises_never :: "nat \<Rightarrow> bool" where
  "raises_never n = False"

definition run_world :: "nat \<Rightarrow> (nat \<Rightarrow> bool) \<Rightarrow> world" where
  "run_world N R = initial_world draws_half real (stop_at N) R"

section \<open>Decimal places\<close>

text \<open>A payload field holds a number with at most \<open>k\<close> decimal places.\<close>

definition num_places :: "nat \<Rightarrow> json option \<Rightarrow> bool" where
  "num_places k j = (case j of Some (JNum x) \<Rightarrow> of_int \<lfloor>x * 10 ^ k\<rfloor> = x * 10 ^ k | _ \<Rightarrow> False)"


section \<open>Boundedness of the walk\<close>

lemma clamp_bounds: "a \<le> b \<Longrightarrow> a \<le> clamp x a b \<and> clamp x a b \<le> b"
  by (simp add: clamp_def)

lemma RandomWalk_next_result:
  assumes "RandomWalk_next rw j w = (x, rw', w')"
  shows "v rw' = x" and "lo rw' = lo rw" and "hi rw' = hi rw" and "step rw' = step rw"
    and "x = clamp (v rw + (- step rw + (step rw - - step rw) * rand_draws w (rand_pos w))
                   + rand_draws w (rand_pos w + 1) * j * 0.01 * (hi rw - lo rw)) (lo rw) (hi rw)"
    and "w' = w\<lparr>rand_pos := rand_pos w + 2\<rparr>"
  using assms
  by (auto simp: RandomWalk_next_def Let_def random_uniform_def random_gauss_def
      random_random_def split: prod.splits)

lemma RandomWalk_next_bounds:
  assumes "lo rw \<le> hi rw" and "RandomWalk_next rw j w = (x, rw', w')"
  shows "lo rw \<le> x \<and> x \<le> hi rw"
  using RandomWalk_next_result(5)[OF assms(2)] clamp_bounds[OF assms(1)] by simp

lemma advances_bounded:
  "lo rw \<le> hi rw \<Longrightarrow> advances rw js w = (xs, rw', w') \<Longrightarrow>
     (\<forall>(x, s) \<in> set xs. lo rw \<le> x \<and> x \<le> hi rw \<and> v s = x) \<and>
     (js \<noteq> [] \<longrightarrow> lo rw \<le> v rw' \<and> v rw' \<le> hi rw) \<and> length xs = length js \<and>
     lo rw' = lo rw \<and> hi rw' = hi rw"
proof (induction js arbitrary: rw w xs rw' w')
  case Nil
  then show ?case by simp
next
  case (Cons j js)
  obtain x r1 w1 where n: "RandomWalk_next rw j w = (x, r1, w1)"
    by (metis prod_cases3)
  obtain ys r2 w2 where a: "advances r1 js w1 = (ys, r2, w2)"
    by (metis prod_cases3)
  from Cons.prems(2) n a have eq: "xs = (x, r1) # ys" "rw' = r2" "w' = w2"
    by auto
  note nb = RandomWalk_next_bounds[OF Cons.prems(1) n] RandomWalk_next_result(1-3)[OF n]
  from nb have le1: "lo r1 \<le> hi r1"
    using Cons.prems(1) by simp
  note ih = Cons.IH[OF le1 a]
  show ?case
  proof (cases js)
    case Nil
    with a have "r2 = r1" "ys = []" by auto
    with nb ih eq show ?thesis by auto
  next
    case (Cons k ks)
    with nb ih eq show ?thesis by auto
  qed
qed

text \<open>
  Claim C4. For a walk with \<open>lo \<le> hi\<close>, any list of jitter scales (one per call of
  \<^verbatim>\<open>next\<close>) and any random draws, every call returns a value within \<open>[lo, hi]\<close>, the
  value stored in the walk after the call is the value returned, each jitter scale gives
  one call, and after at least one call the stored value is within \<open>[lo, hi]\<close>.
\<close>

theorem RandomWalk_advances_within_bounds:
  assumes "lo rw \<le> hi rw"
  shows "(\<forall>(x, s) \<in> set (fst (advances rw js w)). lo rw \<le> x \<and> x \<le> hi rw \<and> v s = x) \<and>
         length (fst (advances rw js w)) = length js \<and>
         (js \<noteq> [] \<longrightarrow> lo rw \<le> v (fst (snd (advances rw js w))) \<and>
                       v (fst (snd (advances rw js w))) \<le> hi rw)"
proof -
  obtain xs r2 w2 where a: "advances rw js w = (xs, r2, w2)"
    by (metis prod_cases3)
  from advances_bounded[OF assms a] a show ?thesis
    by simp
qed

theorem RandomWalk_advances_within_bounds_witness:
  "lo (RandomWalk_init 20 0.05 10 35) \<le> hi (RandomWalk_init 20 0.05 10 35) \<and>
   list_all (\<lambda>(x, s). lo (RandomWalk_init 20 0.05 10 35) \<le> x \<and>
                      x \<le> hi (RandomWalk_init 20 0.05 10 35) \<and> v s = x)
     (fst (advances (RandomWalk_init 20 0.05 10 35) [0.5, 2]
        (initial_world (\<lambda>n. if n = 1 then 1000 else if n = 3 then - 1000 else 0.9)
           real (\<lambda>n. False) (\<lambda>n. False)))) \<and>
   map fst (fst (advances (RandomWalk_init 20 0.05 10 35) [0.5, 2]
        (initial_world (\<lambda>n. if n = 1 then 1000 else if n = 3 then - 1000 else 0.9)
           real (\<lambda>n. False) (\<lambda>n. False)))) = [35, 10]"
proof -
  have h: "lo (RandomWalk_init 20 0.05 10 35) \<le> hi (RandomWalk_init 20 0.05 10 35)"
    by (simp add: RandomWalk_init_def)
  have e: "map fst (fst (advances (RandomWalk_init 20 0.05 10 35) [0.5, 2]
        (initial_world (\<lambda>n. if n = 1 then 1000 else if n = 3 then - 1000 else 0.9)
           real (\<lambda>n. False) (\<lambda>n. False)))) = [35, 10]"
    by (simp add: initial_world_def RandomWalk_init_def RandomWalk_next_def random_uniform_def
        random_gauss_def random_random_def clamp_def)
  from h e RandomWalk_advances_within_bounds[OF h] show ?thesis
    unfolding list_all_iff by blast
qed

section \<open>One call of next, one rounding\<close>

lemma RandomWalk_next_eq:
  "RandomWalk_next rw j w =
     (let x = clamp (v rw + (- step rw + (step rw - - step rw) * rand_draws w (rand_pos w))
                   + rand_draws w (rand_pos w + 1) * j * 0.01 * (hi rw - lo rw)) (lo rw) (hi rw)
      in (x, rw\<lparr>v := x\<rparr>, w\<lparr>rand_pos := rand_pos w + 2\<rparr>))"
  by (simp add: RandomWalk_next_def Let_def random_uniform_def random_gauss_def random_random_def)

lemma RandomWalk_next_v: "v (fst (snd (RandomWalk_next rw j w))) = fst (RandomWalk_next rw j w)"
  by (simp add: RandomWalk_next_eq Let_def)

lemma round_py_places: "num_places k (Some (JNum (round_py x k)))"
  by (simp add: num_places_def round_py_def)

lemma round_py_close: "\<bar>round_py x k - x\<bar> \<le> 1 / (2 * 10 ^ k)"
proof -
  define c :: real where "c = 10 ^ k"
  define a :: real where "a = of_int (round_half_even (x * c))"
  have c: "0 < c" by (simp add: c_def)
  have "\<bar>a - x * c\<bar> \<le> 1 / 2"
    unfolding a_def round_half_even_def Let_def by (auto simp: abs_if) linarith+
  then have "\<bar>a - x * c\<bar> / c \<le> (1 / 2) / c"
    using c by (intro divide_right_mono) simp_all
  moreover have "a / c - x = (a - x * c) / c"
    using c by (simp add: field_simps)
  then have "\<bar>a / c - x\<bar> = \<bar>a - x * c\<bar> / c"
    using c by simp
  ultimately have "\<bar>a / c - x\<bar> \<le> 1 / (2 * c)"
    by simp
  then show ?thesis
    by (simp add: round_py_def a_def c_def)
qed

lemma round_py_examples:
  "round_py 16.5 1 = 16.5" "round_py 35 1 = 35" "round_py 85 1 = 85" "round_py 800 0 = 800"
  "round_py 26 1 = 26" "round_py 34 1 = 34" "round_py 20.04 2 = 20.04"
  by (simp_all add: round_py_def round_half_even_def)


section \<open>The example emulator\<close>

lemma example_emu_eq:
  "example_emu ds = \<lparr>site = ''s'', room = ''r'', device = ''d1'', interval = 5, qos = 0, dp_channels = [1],
          temp = RandomWalk_init (18 + (23 - 18) * ds 0) 0.05 10 35,
          rh = RandomWalk_init (35 + (55 - 35) * ds (Suc 0)) 0.2 15 90,
          press_pa = RandomWalk_init 101325 30 98000 104000,
          gas = RandomWalk_init 50000 500 1000 200000,
          iaq = RandomWalk_init 35 2.5 5 250,
          voc_index = RandomWalk_init 15 2 0 500,
          co2_eq = RandomWalk_init 600 15 400 2000,
          pm1 = RandomWalk_init 3 0.5 0 100,
          pm25 = RandomWalk_init 6 0.8 0 200,
          pm4 = RandomWalk_init 8 1 0 250,
          pm10 = RandomWalk_init 10 1.2 0 300,
          dp_walk = [1 \<mapsto> RandomWalk_init (- 80 + (- 8 + (8 - - 8) * ds (Suc (Suc 0)))) 3 (- 300) 20]\<rparr>"
  by (simp add: example_emu_def DeviceEmulator_init_def example_world_def initial_world_def
     random_uniform_def random_random_def)

lemma example_start_eq:
  "example_start ds = \<lparr>rand_draws = ds, rand_pos = 3, wall_clock = (\<lambda>n. CHR ''T'' # str_nat n), wall_pos = 0,
      mono_clock = real, mono_pos = 0, stop_polls = (\<lambda>n. False), poll_pos = 0,
      publish_raises = (\<lambda>n. False), publish_pos = 0, trace = []\<rparr>"
  by (simp add: example_start_def DeviceEmulator_init_def example_world_def initial_world_def
     random_uniform_def random_random_def)

lemma example_walks:
  "iaq (example_emu ds) = RandomWalk_init 35 2.5 5 250"
  "voc_index (example_emu ds) = RandomWalk_init 15 2 0 500"
  "co2_eq (example_emu ds) = RandomWalk_init 600 15 400 2000"
  "pm25 (example_emu ds) = RandomWalk_init 6 0.8 0 200"
  "pm10 (example_emu ds) = RandomWalk_init 10 1.2 0 300"
  "temp (example_emu ds) = RandomWalk_init (18 + (23 - 18) * ds 0) 0.05 10 35"
  "rand_draws (example_start ds) = ds" "rand_pos (example_start ds) = 3"
  by (simp_all add: example_emu_eq example_start_eq)


section \<open>The environmental payload\<close>

lemma bme_payload_base_fields:
  "map_of (fst (bme_payload emu ts w)) ''t_c'' =
     Some (JNum (round_py (fst (RandomWalk_next (temp emu) 0.5 w)) 2))"
  "map_of (fst (bme_payload emu ts w)) ''rh_pct'' =
     Some (JNum (round_py (fst (RandomWalk_next (rh emu) 0.5 (w\<lparr>rand_pos := rand_pos w + 2\<rparr>))) 1))"
  "map_of (fst (bme_payload emu ts w)) ''p_pa'' =
     Some (JNum (round_py (fst (RandomWalk_next (press_pa emu) 0.5 (w\<lparr>rand_pos := rand_pos w + 4\<rparr>))) 0))"
  "map_of (fst (bme_payload emu ts w)) ''gas_ohm'' =
     Some (JNum (round_py (fst (RandomWalk_next (gas emu) 0.5 (w\<lparr>rand_pos := rand_pos w + 6\<rparr>))) 0))"
  "map_of (fst (bme_payload emu ts w)) ''ts'' = Some (JStr ts)"
  by (auto simp: bme_payload_def Let_def RandomWalk_next_eq random_uniform_def random_random_def
      eval_nat_numeral split: prod.splits if_splits)

lemma bme_payload_walks:
  "temp (fst (snd (bme_payload emu ts w))) = fst (snd (RandomWalk_next (temp emu) 0.5 w))"
  "iaq (fst (snd (bme_payload emu ts w))) =
     fst (snd (RandomWalk_next (iaq emu) 0.5 (w\<lparr>rand_pos := rand_pos w + 8\<rparr>)))"
  "voc_index (fst (snd (bme_payload emu ts w))) =
     fst (snd (RandomWalk_next (voc_index emu) 0.5
       (w\<lparr>rand_pos := rand_pos w + (if rand_draws w (rand_pos w + 10) < 0.02 then 12 else 11)\<rparr>)))"
  "co2_eq (fst (snd (bme_payload emu ts w))) =
     fst (snd (RandomWalk_next (co2_eq emu) 0.5
       (w\<lparr>rand_pos := rand_pos w + (if rand_draws w (rand_pos w + 10) < 0.02 then 15 else 14)\<rparr>)))"
  by (auto simp: bme_payload_def Let_def RandomWalk_next_eq random_uniform_def random_random_def
      eval_nat_numeral split: prod.splits if_splits)

lemma bme_payload_coupled_fields:
  "map_of (fst (bme_payload emu ts w)) ''iaq'' =
     Some (JNum (round_py
       (if rand_draws w (rand_pos w + 10) < 0.02
        then clamp (v (iaq (fst (snd (bme_payload emu ts w)))) + (20 + (80 - 20) * rand_draws w (rand_pos w + 11))) 5 250
        else v (iaq (fst (snd (bme_payload emu ts w))))) 1))"
  "map_of (fst (bme_payload emu ts w)) ''voc_index'' =
     Some (JNum (round_py
       (clamp (v (voc_index (fst (snd (bme_payload emu ts w))))
               + (- 3 + (3 - - 3) * rand_draws w (rand_pos w + (if rand_draws w (rand_pos w + 10) < 0.02 then 14 else 13)))
               + 0.3 * ((if rand_draws w (rand_pos w + 10) < 0.02
                   then clamp (v (iaq (fst (snd (bme_payload emu ts w)))) + (20 + (80 - 20) * rand_draws w (rand_pos w + 11))) 5 250
                   else v (iaq (fst (snd (bme_payload emu ts w))))) - 35)) 0 500) 1))"
  "map_of (fst (bme_payload emu ts w)) ''co2_eq'' =
     Some (JNum (round_py
       (if rand_draws w (rand_pos w + (if rand_draws w (rand_pos w + 10) < 0.02 then 17 else 16)) < 0.02
        then clamp (v (co2_eq (fst (snd (bme_payload emu ts w))))
              + (100 + (300 - 100) * rand_draws w (rand_pos w + (if rand_draws w (rand_pos w + 10) < 0.02 then 18 else 17)))) 400 2000
        else v (co2_eq (fst (snd (bme_payload emu ts w))))) 0))"
  by (auto simp: bme_payload_def Let_def RandomWalk_next_eq random_uniform_def random_random_def
      eval_nat_numeral split: prod.splits if_splits)
lemma calm_iaq:
  "iaq (fst (snd (bme_payload (example_emu draws_calm) ''T0'' (example_start draws_calm)))) =
     RandomWalk_init 35 2.5 5 250"
  by (simp add: bme_payload_walks example_walks RandomWalk_next_eq draws_calm_def
      RandomWalk_init_def clamp_def)

lemma calm_voc:
  "voc_index (fst (snd (bme_payload (example_emu draws_calm) ''T0'' (example_start draws_calm)))) =
     RandomWalk_init 15 2 0 500"
  by (simp add: bme_payload_walks example_walks RandomWalk_next_eq draws_calm_def
      RandomWalk_init_def clamp_def)

lemma excursion_iaq:
  "iaq (fst (snd (bme_payload (example_emu draws_excursion) ''T0'' (example_start draws_excursion)))) =
     RandomWalk_init 35 2.5 5 250"
  by (simp add: bme_payload_walks example_walks RandomWalk_next_eq draws_excursion_def
      RandomWalk_init_def clamp_def)

lemma excursion_co2:
  "co2_eq (fst (snd (bme_payload (example_emu draws_excursion) ''T0'' (example_start draws_excursion)))) =
     RandomWalk_init 600 15 400 2000"
  by (simp add: bme_payload_walks example_walks RandomWalk_next_eq draws_excursion_def
      RandomWalk_init_def clamp_def)


lemma bme_payload_base_walks:
  "rh (fst (snd (bme_payload emu ts w))) =
     fst (snd (RandomWalk_next (rh emu) 0.5 (w\<lparr>rand_pos := rand_pos w + 2\<rparr>)))"
  "press_pa (fst (snd (bme_payload emu ts w))) =
     fst (snd (RandomWalk_next (press_pa emu) 0.5 (w\<lparr>rand_pos := rand_pos w + 4\<rparr>)))"
  "gas (fst (snd (bme_payload emu ts w))) =
     fst (snd (RandomWalk_next (gas emu) 0.5 (w\<lparr>rand_pos := rand_pos w + 6\<rparr>)))"
  by (auto simp: bme_payload_def Let_def RandomWalk_next_eq random_uniform_def random_random_def
      eval_nat_numeral split: prod.splits if_splits)

lemma bme_payload_keys:
  "map fst (fst (bme_payload emu ts w)) =
     [''t_c'', ''rh_pct'', ''p_pa'', ''gas_ohm'', ''iaq'', ''voc_index'', ''co2_eq'', ''ts'']"
  by (auto simp: bme_payload_def Let_def split: prod.splits if_splits)

text \<open>
  Claim C1, as the code has it. The environmental payload has the eight keys of the source,
  and every numeric field is \<^verbatim>\<open>round\<close> of its value: the temperature to 2 decimal
  places, humidity, IAQ and VOC index to 1 decimal place, pressure, gas resistance and
  CO2-equivalent to 0 decimal places. The values rounded are what the temperature, humidity,
  pressure and gas walks store after their advance, and the IAQ, VOC and CO2 values after
  excursion and coupling. Each field has at most that many decimal places and lies within
  half a unit of its last place from the value rounded.
\<close>

theorem bme_payload_precision:
  "let p = fst (bme_payload emu ts w);
       emu' = fst (snd (bme_payload emu ts w));
       fired1 = rand_draws w (rand_pos w + 10) < 0.02;
       iaq_val = (if fired1
                  then clamp (v (iaq emu') + (20 + (80 - 20) * rand_draws w (rand_pos w + 11))) 5 250
                  else v (iaq emu'));
       noise = - 3 + (3 - - 3) * rand_draws w (rand_pos w + (if fired1 then 14 else 13));
       voc_val = clamp (v (voc_index emu') + noise + 0.3 * (iaq_val - 35)) 0 500;
       k = rand_pos w + (if fired1 then 15 else 14);
       fired2 = rand_draws w (k + 2) < 0.02;
       co2_val = (if fired2
                  then clamp (v (co2_eq emu') + (100 + (300 - 100) * rand_draws w (k + 3))) 400 2000
                  else v (co2_eq emu'))
   in map fst p = [''t_c'', ''rh_pct'', ''p_pa'', ''gas_ohm'', ''iaq'', ''voc_index'', ''co2_eq'', ''ts''] \<and>
      map_of p ''t_c'' = Some (JNum (round_py (v (temp emu')) 2)) \<and>
      map_of p ''rh_pct'' = Some (JNum (round_py (v (rh emu')) 1)) \<and>
      map_of p ''p_pa'' = Some (JNum (round_py (v (press_pa emu')) 0)) \<and>
      map_of p ''gas_ohm'' = Some (JNum (round_py (v (gas emu')) 0)) \<and>
      map_of p ''iaq'' = Some (JNum (round_py iaq_val 1)) \<and>
      map_of p ''voc_index'' = Some (JNum (round_py voc_val 1)) \<and>
      map_of p ''co2_eq'' = Some (JNum (round_py co2_val 0)) \<and>
      temp emu' = fst (snd (RandomWalk_next (temp emu) 0.5 w)) \<and>
      rh emu' = fst (snd (RandomWalk_next (rh emu) 0.5 (w\<lparr>rand_pos := rand_pos w + 2\<rparr>))) \<and>
      press_pa emu' = fst (snd (RandomWalk_next (press_pa emu) 0.5 (w\<lparr>rand_pos := rand_pos w + 4\<rparr>))) \<and>
      gas emu' = fst (snd (RandomWalk_next (gas emu) 0.5 (w\<lparr>rand_pos := rand_pos w + 6\<rparr>))) \<and>
      iaq emu' = fst (snd (RandomWalk_next (iaq emu) 0.5 (w\<lparr>rand_pos := rand_pos w + 8\<rparr>))) \<and>
      voc_index emu' = fst (snd (RandomWalk_next (voc_index emu) 0.5
                         (w\<lparr>rand_pos := rand_pos w + (if fired1 then 12 else 11)\<rparr>))) \<and>
      co2_eq emu' = fst (snd (RandomWalk_next (co2_eq emu) 0.5 (w\<lparr>rand_pos := k\<rparr>))) \<and>
      num_places 2 (map_of p ''t_c'') \<and> num_places 1 (map_of p ''rh_pct'') \<and>
      num_places 0 (map_of p ''p_pa'') \<and> num_places 0 (map_of p ''gas_ohm'') \<and>
      num_places 1 (map_of p ''iaq'') \<and> num_places 1 (map_of p ''voc_index'') \<and>
      num_places 0 (map_of p ''co2_eq'') \<and>
      \<bar>round_py (v (temp emu')) 2 - v (temp emu')\<bar> \<le> 1 / (2 * 10 ^ 2) \<and>
      \<bar>round_py (v (rh emu')) 1 - v (rh emu')\<bar> \<le> 1 / (2 * 10 ^ 1) \<and>
      \<bar>round_py (v (press_pa emu')) 0 - v (press_pa emu')\<bar> \<le> 1 / (2 * 10 ^ 0) \<and>
      \<bar>round_py (v (gas emu')) 0 - v (gas emu')\<bar> \<le> 1 / (2 * 10 ^ 0) \<and>
      \<bar>round_py iaq_val 1 - iaq_val\<bar> \<le> 1 / (2 * 10 ^ 1) \<and>
      \<bar>round_py voc_val 1 - voc_val\<bar> \<le> 1 / (2 * 10 ^ 1) \<and>
      \<bar>round_py co2_val 0 - co2_val\<bar> \<le> 1 / (2 * 10 ^ 0)"
proof -
  have f: "map_of (fst (bme_payload emu ts w)) ''t_c'' =
        Some (JNum (round_py (v (temp (fst (snd (bme_payload emu ts w))))) 2))"
      "map_of (fst (bme_payload emu ts w)) ''rh_pct'' =
        Some (JNum (round_py (v (rh (fst (snd (bme_payload emu ts w))))) 1))"
      "map_of (fst (bme_payload emu ts w)) ''p_pa'' =
        Some (JNum (round_py (v (press_pa (fst (snd (bme_payload emu ts w))))) 0))"
      "map_of (fst (bme_payload emu ts w)) ''gas_ohm'' =
        Some (JNum (round_py (v (gas (fst (snd (bme_payload emu ts w))))) 0))"
    by (simp_all add: bme_payload_base_fields bme_payload_walks(1) bme_payload_base_walks
        RandomWalk_next_v)
  have c: "map_of (fst (bme_payload emu ts w)) ''co2_eq'' =
     Some (JNum (round_py
       (if rand_draws w (rand_pos w + (if rand_draws w (rand_pos w + 10) < 0.02 then 15 else 14) + 2) < 0.02
        then clamp (v (co2_eq (fst (snd (bme_payload emu ts w))))
              + (100 + (300 - 100) * rand_draws w (rand_pos w + (if rand_draws w (rand_pos w + 10) < 0.02 then 15 else 14) + 3))) 400 2000
        else v (co2_eq (fst (snd (bme_payload emu ts w))))) 0))"
    by (cases "rand_draws w (rand_pos w + 10) < 0.02")
       (simp_all add: bme_payload_coupled_fields(3) add.commute)
  show ?thesis
    unfolding Let_def
    by (simp only: f c bme_payload_keys bme_payload_coupled_fields(1,2) bme_payload_walks
        bme_payload_base_walks round_py_places round_py_close simp_thms)
qed

text \<open>
  Against claim C1 as stated: on the first tick of the example emulator the temperature walk
  goes from 20 to 20.04, and the payload carries 20.04, which has more than 1 decimal place.
\<close>

theorem bme_payload_temperature_two_places:
  "map_of (fst (bme_payload (example_emu draws_calm) ''T0'' (example_start draws_calm))) ''t_c'' =
     Some (JNum 20.04) \<and>
   num_places 1 (map_of (fst (bme_payload (example_emu draws_calm) ''T0'' (example_start draws_calm))) ''t_c'') = False"
proof -
  have "fst (RandomWalk_next (temp (example_emu draws_calm)) 0.5 (example_start draws_calm)) = 20.04"
    by (simp add: example_walks RandomWalk_next_eq draws_calm_def RandomWalk_init_def clamp_def
        Let_def)
  then have "map_of (fst (bme_payload (example_emu draws_calm) ''T0'' (example_start draws_calm))) ''t_c'' =
     Some (JNum 20.04)"
    by (simp only: bme_payload_base_fields round_py_examples)
  moreover have "num_places 1 (Some (JNum 20.04)) = False"
    by (simp add: num_places_def)
  ultimately show ?thesis
    by (simp only: simp_thms)
qed


text \<open>
  Claim C6. The VOC index of the payload is the rounding to 1 decimal place of
  \<open>clamp (walk value + noise + 0.3 * (iaq_val - 35)) 0 500\<close>, where the walk value is what
  the VOC walk stores after its advance, the noise is \<^verbatim>\<open>uniform(-3, 3)\<close> of the draw that
  follows, and \<open>iaq_val\<close> is the IAQ value after its possible excursion (the payload's IAQ is
  its rounding). When \<open>iaq_val\<close> is 35 the coupling term vanishes.
\<close>

theorem bme_payload_voc_coupling:
  "let p = fst (bme_payload emu ts w);
       emu' = fst (snd (bme_payload emu ts w));
       fired = rand_draws w (rand_pos w + 10) < 0.02;
       iaq_val = (if fired
                  then clamp (v (iaq emu') + (20 + (80 - 20) * rand_draws w (rand_pos w + 11))) 5 250
                  else v (iaq emu'));
       noise = - 3 + (3 - - 3) * rand_draws w (rand_pos w + (if fired then 14 else 13))
   in map_of p ''voc_index'' =
        Some (JNum (round_py (clamp (v (voc_index emu') + noise + 0.3 * (iaq_val - 35)) 0 500) 1)) \<and>
      map_of p ''iaq'' = Some (JNum (round_py iaq_val 1)) \<and>
      voc_index emu' = fst (snd (RandomWalk_next (voc_index emu) 0.5
                         (w\<lparr>rand_pos := rand_pos w + (if fired then 12 else 11)\<rparr>))) \<and>
      (iaq_val = 35 \<longrightarrow>
         map_of p ''voc_index'' = Some (JNum (round_py (clamp (v (voc_index emu') + noise) 0 500) 1)))"
  unfolding Let_def
  using bme_payload_coupled_fields(1,2)[of emu ts w] bme_payload_walks(3)[of emu ts w]
  by auto

theorem bme_payload_voc_coupling_witness:
  "v (iaq (fst (snd (bme_payload (example_emu draws_calm) ''T0'' (example_start draws_calm))))) = 35 \<and>
   \<not> draws_calm 13 < 0.02 \<and>
   map_of (fst (bme_payload (example_emu draws_calm) ''T0'' (example_start draws_calm))) ''iaq'' =
     Some (JNum 35) \<and>
   map_of (fst (bme_payload (example_emu draws_calm) ''T0'' (example_start draws_calm))) ''voc_index'' =
     Some (JNum 16.5)"
  using bme_payload_voc_coupling[of "example_emu draws_calm" "''T0''" "example_start draws_calm"]
    round_py_examples
  by (simp add: Let_def calm_iaq calm_voc example_walks draws_calm_def RandomWalk_init_def clamp_def)

text \<open>
  Claim C10. After a call of \<^verbatim>\<open>_bme_payload\<close> the IAQ walk and the CO2 walk are the walks
  \<^verbatim>\<open>next\<close> returned, whether or not an excursion fired; an excursion changes only the value
  reported in the payload of this call.
\<close>

theorem bme_payload_excursions_keep_walks:
  "let emu' = fst (snd (bme_payload emu ts w));
       p = fst (bme_payload emu ts w);
       fired1 = rand_draws w (rand_pos w + 10) < 0.02;
       k = rand_pos w + (if fired1 then 15 else 14);
       fired2 = rand_draws w (k + 2) < 0.02
   in iaq emu' = fst (snd (RandomWalk_next (iaq emu) 0.5 (w\<lparr>rand_pos := rand_pos w + 8\<rparr>))) \<and>
      v (iaq emu') = fst (RandomWalk_next (iaq emu) 0.5 (w\<lparr>rand_pos := rand_pos w + 8\<rparr>)) \<and>
      co2_eq emu' = fst (snd (RandomWalk_next (co2_eq emu) 0.5 (w\<lparr>rand_pos := k\<rparr>))) \<and>
      v (co2_eq emu') = fst (RandomWalk_next (co2_eq emu) 0.5 (w\<lparr>rand_pos := k\<rparr>)) \<and>
      map_of p ''iaq'' = Some (JNum (round_py
        (if fired1
         then clamp (v (iaq emu') + (20 + (80 - 20) * rand_draws w (rand_pos w + 11))) 5 250
         else v (iaq emu')) 1)) \<and>
      map_of p ''co2_eq'' = Some (JNum (round_py
        (if fired2
         then clamp (v (co2_eq emu') + (100 + (300 - 100) * rand_draws w (k + 3))) 400 2000
         else v (co2_eq emu')) 0))"
  unfolding Let_def
  by (cases "rand_draws w (rand_pos w + 10) < 0.02")
     (simp_all add: bme_payload_coupled_fields(1,3) bme_payload_walks(2,4) RandomWalk_next_v
        add.commute)

theorem bme_payload_excursions_keep_walks_witness:
  "draws_excursion 13 < 0.02 \<and> draws_excursion 20 < 0.02 \<and>
   v (iaq (fst (snd (bme_payload (example_emu draws_excursion) ''T0'' (example_start draws_excursion))))) = 35 \<and>
   map_of (fst (bme_payload (example_emu draws_excursion) ''T0'' (example_start draws_excursion))) ''iaq'' =
     Some (JNum 85) \<and>
   v (co2_eq (fst (snd (bme_payload (example_emu draws_excursion) ''T0'' (example_start draws_excursion))))) = 600 \<and>
   map_of (fst (bme_payload (example_emu draws_excursion) ''T0'' (example_start draws_excursion))) ''co2_eq'' =
     Some (JNum 800)"
  using bme_payload_excursions_keep_walks[of "example_emu draws_excursion" "''T0''" "example_start draws_excursion"]
    round_py_examples
  by (simp add: Let_def excursion_iaq excursion_co2 example_walks draws_excursion_def
      RandomWalk_init_def clamp_def)

section \<open>The particulate payload\<close>

lemma sps_payload_walks:
  "pm1 (fst (snd (sps_payload emu ts w))) =
     fst (snd (RandomWalk_next (pm1 emu) 0.5
       (w\<lparr>rand_pos := rand_pos w + (if rand_draws w (rand_pos w) < 0.015 then 2 else 1)\<rparr>)))"
  "pm25 (fst (snd (sps_payload emu ts w))) =
     fst (snd (RandomWalk_next
       (if rand_draws w (rand_pos w) < 0.015
        then (pm25 emu)\<lparr>v := clamp (v (pm25 emu) + (10 + (30 - 10) * rand_draws w (rand_pos w + 1))) 0 200\<rparr>
        else pm25 emu) 0.5
       (w\<lparr>rand_pos := rand_pos w + (if rand_draws w (rand_pos w) < 0.015 then 4 else 3)\<rparr>)))"
  "pm4 (fst (snd (sps_payload emu ts w))) =
     fst (snd (RandomWalk_next (pm4 emu) 0.5
       (w\<lparr>rand_pos := rand_pos w + (if rand_draws w (rand_pos w) < 0.015 then 6 else 5)\<rparr>)))"
  "pm10 (fst (snd (sps_payload emu ts w))) =
     fst (snd (RandomWalk_next
       (if rand_draws w (rand_pos w) < 0.015
        then (pm10 emu)\<lparr>v := clamp (v (pm10 emu) + (10 + (30 - 10) * rand_draws w (rand_pos w + 1)) * 1.2) 0 300\<rparr>
        else pm10 emu) 0.5
       (w\<lparr>rand_pos := rand_pos w + (if rand_draws w (rand_pos w) < 0.015 then 8 else 7)\<rparr>)))"
  "snd (snd (sps_payload emu ts w)) =
     w\<lparr>rand_pos := rand_pos w + (if rand_draws w (rand_pos w) < 0.015 then 10 else 9)\<rparr>"
  by (auto simp: sps_payload_def Let_def RandomWalk_next_eq random_uniform_def random_random_def
      eval_nat_numeral split: prod.splits if_splits)

lemma sps_payload_fields:
  "map_of (fst (sps_payload emu ts w)) ''pm1_0'' = Some (JNum (round_py (v (pm1 (fst (snd (sps_payload emu ts w))))) 1))"
  "map_of (fst (sps_payload emu ts w)) ''pm2_5'' = Some (JNum (round_py (v (pm25 (fst (snd (sps_payload emu ts w))))) 1))"
  "map_of (fst (sps_payload emu ts w)) ''pm4_0'' = Some (JNum (round_py (v (pm4 (fst (snd (sps_payload emu ts w))))) 1))"
  "map_of (fst (sps_payload emu ts w)) ''pm10'' = Some (JNum (round_py (v (pm10 (fst (snd (sps_payload emu ts w))))) 1))"
  "map_of (fst (sps_payload emu ts w)) ''ts'' = Some (JStr ts)"
  by (auto simp: sps_payload_def Let_def RandomWalk_next_eq random_uniform_def random_random_def
      eval_nat_numeral split: prod.splits if_splits)

lemma init_dp_walk_world:
  "snd (init_dp_walk chs m w) = w\<lparr>rand_pos := rand_pos w + length chs\<rparr>"
  by (induction chs arbitrary: m w)
     (auto simp: random_uniform_def random_random_def Let_def split: prod.splits)

lemma event_tick1:
  "pm25 (fst (snd (sps_payload (example_emu draws_event) ''T0'' (example_start draws_event)))) =
     RandomWalk_init 26 0.8 0 200"
  "pm10 (fst (snd (sps_payload (example_emu draws_event) ''T0'' (example_start draws_event)))) =
     RandomWalk_init 34 1.2 0 300"
  "snd (snd (sps_payload (example_emu draws_event) ''T0'' (example_start draws_event))) =
     (example_start draws_event)\<lparr>rand_pos := 13\<rparr>"
  by (simp_all add: sps_payload_walks example_walks RandomWalk_next_eq draws_event_def
      RandomWalk_init_def clamp_def)

lemma event_tick2:
  "RandomWalk_next (RandomWalk_init 26 0.8 0 200) 0.5 ((example_start draws_event)\<lparr>rand_pos := 16\<rparr>) =
     (26, RandomWalk_init 26 0.8 0 200, (example_start draws_event)\<lparr>rand_pos := 18\<rparr>)"
  "RandomWalk_next (RandomWalk_init 34 1.2 0 300) 0.5 ((example_start draws_event)\<lparr>rand_pos := 20\<rparr>) =
     (34, RandomWalk_init 34 1.2 0 300, (example_start draws_event)\<lparr>rand_pos := 22\<rparr>)"
  by (simp_all add: example_walks RandomWalk_next_eq draws_event_def RandomWalk_init_def clamp_def)


text \<open>
  Claim C5. The event fires when the first draw of \<^verbatim>\<open>_sps_payload\<close> is below 0.015. Then
  \<open>bump = uniform(10, 30)\<close> is added to the stored value of the PM2.5 walk and \<open>bump * 1.2\<close>
  to that of the PM10 walk, each clamped (to \<open>[0, 200]\<close> and \<open>[0, 300]\<close>), before the advances
  of this tick: the walks stored after the tick are the advances of the bumped walks, the
  payload reports their values rounded, and the next tick advances from what is stored.
  Without the event the walks advance from their stored values.
\<close>

theorem sps_payload_event_persists:
  "let emu' = fst (snd (sps_payload emu ts w));
       w' = snd (snd (sps_payload emu ts w));
       p = fst (sps_payload emu ts w);
       bump = 10 + (30 - 10) * rand_draws w (rand_pos w + 1);
       emu'' = fst (snd (sps_payload emu' ts' w'))
   in (rand_draws w (rand_pos w) < 0.015 \<longrightarrow>
         pm25 emu' = fst (snd (RandomWalk_next
            ((pm25 emu)\<lparr>v := clamp (v (pm25 emu) + bump) 0 200\<rparr>) 0.5
            (w\<lparr>rand_pos := rand_pos w + 4\<rparr>))) \<and>
         pm10 emu' = fst (snd (RandomWalk_next
            ((pm10 emu)\<lparr>v := clamp (v (pm10 emu) + bump * 1.2) 0 300\<rparr>) 0.5
            (w\<lparr>rand_pos := rand_pos w + 8\<rparr>))) \<and>
         pm1 emu' = fst (snd (RandomWalk_next (pm1 emu) 0.5 (w\<lparr>rand_pos := rand_pos w + 2\<rparr>))) \<and>
         pm4 emu' = fst (snd (RandomWalk_next (pm4 emu) 0.5 (w\<lparr>rand_pos := rand_pos w + 6\<rparr>))) \<and>
         w' = w\<lparr>rand_pos := rand_pos w + 10\<rparr>) \<and>
      (\<not> rand_draws w (rand_pos w) < 0.015 \<longrightarrow>
         pm25 emu' = fst (snd (RandomWalk_next (pm25 emu) 0.5 (w\<lparr>rand_pos := rand_pos w + 3\<rparr>))) \<and>
         pm10 emu' = fst (snd (RandomWalk_next (pm10 emu) 0.5 (w\<lparr>rand_pos := rand_pos w + 7\<rparr>)))) \<and>
      map_of p ''pm2_5'' = Some (JNum (round_py (v (pm25 emu')) 1)) \<and>
      map_of p ''pm10'' = Some (JNum (round_py (v (pm10 emu')) 1)) \<and>
      (\<not> rand_draws w' (rand_pos w') < 0.015 \<longrightarrow>
         pm25 emu'' = fst (snd (RandomWalk_next (pm25 emu') 0.5 (w'\<lparr>rand_pos := rand_pos w' + 3\<rparr>))) \<and>
         pm10 emu'' = fst (snd (RandomWalk_next (pm10 emu') 0.5 (w'\<lparr>rand_pos := rand_pos w' + 7\<rparr>))))"
  unfolding Let_def
  by (simp add: sps_payload_walks sps_payload_fields)


theorem sps_payload_event_persists_witness:
  "draws_event 3 < 0.015 \<and> \<not> draws_event 13 < 0.015 \<and>
   v (pm25 (example_emu draws_event)) = 6 \<and> v (pm10 (example_emu draws_event)) = 10 \<and>
   map_of (fst (sps_payload (example_emu draws_event) ''T0'' (example_start draws_event))) ''pm2_5'' =
     Some (JNum 26) \<and>
   map_of (fst (sps_payload (example_emu draws_event) ''T0'' (example_start draws_event))) ''pm10'' =
     Some (JNum 34) \<and>
   v (pm25 (fst (snd (sps_payload
        (fst (snd (sps_payload (example_emu draws_event) ''T0'' (example_start draws_event))))
        ''T1''
        (snd (snd (sps_payload (example_emu draws_event) ''T0'' (example_start draws_event)))))))) = 26 \<and>
   v (pm10 (fst (snd (sps_payload
        (fst (snd (sps_payload (example_emu draws_event) ''T0'' (example_start draws_event))))
        ''T1''
        (snd (snd (sps_payload (example_emu draws_event) ''T0'' (example_start draws_event)))))))) = 34"
proof -
  let ?E = "example_emu draws_event" and ?W = "example_start draws_event"
  let ?E1 = "fst (snd (sps_payload ?E ''T0'' ?W))" and ?W1 = "snd (snd (sps_payload ?E ''T0'' ?W))"
  let ?E2 = "fst (snd (sps_payload ?E1 ''T1'' ?W1))"
  note t = sps_payload_event_persists[of ?E "''T0''" ?W "''T1''", unfolded Let_def]
  have d: "draws_event 3 < 0.015" "\<not> draws_event 13 < 0.015"
    by (simp_all add: draws_event_def)
  have s: "v (pm25 ?E) = 6" "v (pm10 ?E) = 10"
    by (simp_all add: example_walks RandomWalk_init_def)
  have n2: "\<not> rand_draws ?W1 (rand_pos ?W1) < 0.015"
    using d(2) by (simp add: event_tick1(3) example_walks)
  from t n2 have "pm25 ?E2 = fst (snd (RandomWalk_next (pm25 ?E1) 0.5 (?W1\<lparr>rand_pos := rand_pos ?W1 + 3\<rparr>)))"
    and "pm10 ?E2 = fst (snd (RandomWalk_next (pm10 ?E1) 0.5 (?W1\<lparr>rand_pos := rand_pos ?W1 + 7\<rparr>)))"
    by blast+
  then have e2: "v (pm25 ?E2) = 26" "v (pm10 ?E2) = 34"
    using event_tick2 by (simp_all add: event_tick1 example_walks RandomWalk_init_def)
  from t have "map_of (fst (sps_payload ?E ''T0'' ?W)) ''pm2_5'' = Some (JNum (round_py (v (pm25 ?E1)) 1))"
    and "map_of (fst (sps_payload ?E ''T0'' ?W)) ''pm10'' = Some (JNum (round_py (v (pm10 ?E1)) 1))"
    by blast+
  then have f: "map_of (fst (sps_payload ?E ''T0'' ?W)) ''pm2_5'' = Some (JNum 26)"
    "map_of (fst (sps_payload ?E ''T0'' ?W)) ''pm10'' = Some (JNum 34)"
    using round_py_examples by (simp_all add: event_tick1 RandomWalk_init_def)
  from d s f e2 show ?thesis
    by (simp only: simp_thms)
qed

section \<open>The walks of the differential-pressure channels\<close>

lemma init_dp_walk_other:
  "ch \<notin> set chs \<Longrightarrow> fst (init_dp_walk chs m w) ch = m ch"
  by (induction chs arbitrary: m w)
     (auto simp: random_uniform_def random_random_def Let_def split: prod.splits)

lemma init_dp_walk_seed:
  "ch \<in> set chs \<Longrightarrow>
     \<exists>k<length chs. fst (init_dp_walk chs m w) ch =
        Some (RandomWalk_init ((if ch = 1 then - 80 else - 95)
                + (- 8 + (8 - - 8) * rand_draws w (rand_pos w + k))) 3 (- 300) 20)"
proof (induction chs arbitrary: m w)
  case Nil
  then show ?case by simp
next
  case (Cons c cs)
  let ?m1 = "m(c \<mapsto> RandomWalk_init ((if c = 1 then - 80 else - 95)
                + (- 8 + (8 - - 8) * rand_draws w (rand_pos w))) 3 (- 300) 20)"
  let ?w1 = "w\<lparr>rand_pos := rand_pos w + 1\<rparr>"
  have step: "init_dp_walk (c # cs) m w = init_dp_walk cs ?m1 ?w1"
    by (simp add: random_uniform_def random_random_def Let_def)
  show ?case
  proof (cases "ch \<in> set cs")
    case True
    from Cons.IH[OF True, of ?m1 ?w1] obtain k where
      k: "k < length cs" "fst (init_dp_walk cs ?m1 ?w1) ch =
        Some (RandomWalk_init ((if ch = 1 then - 80 else - 95)
                + (- 8 + (8 - - 8) * rand_draws ?w1 (rand_pos ?w1 + k))) 3 (- 300) 20)"
      by blast
    have "Suc k < length (c # cs)" using k(1) by simp
    moreover have "fst (init_dp_walk (c # cs) m w) ch =
        Some (RandomWalk_init ((if ch = 1 then - 80 else - 95)
                + (- 8 + (8 - - 8) * rand_draws w (rand_pos w + Suc k))) 3 (- 300) 20)"
      using k(2) unfolding step by simp
    ultimately show ?thesis by blast
  next
    case False
    with Cons.prems have eq: "ch = c" by simp
    have "fst (init_dp_walk (c # cs) m w) ch = ?m1 ch"
      unfolding step using False by (rule init_dp_walk_other)
    then have "fst (init_dp_walk (c # cs) m w) ch =
        Some (RandomWalk_init ((if ch = 1 then - 80 else - 95)
                + (- 8 + (8 - - 8) * rand_draws w (rand_pos w + 0))) 3 (- 300) 20)"
      using eq by simp
    moreover have "0 < length (c # cs)" by simp
    ultimately show ?thesis by blast
  qed
qed

lemma DeviceEmulator_init_dp_walk:
  "dp_walk (fst (DeviceEmulator_init s r d i q chs w)) =
     fst (init_dp_walk chs Map.empty (w\<lparr>rand_pos := rand_pos w + 2\<rparr>))"
  by (simp add: DeviceEmulator_init_def random_uniform_def random_random_def split: prod.splits)

lemma dp_payload_some:
  "dp_walk emu ch = Some rw \<Longrightarrow>
     fst (dp_payload emu ch ts w) =
       Inr [(''dp_pa'', JNum (round_py (fst (RandomWalk_next rw 0.5 w)) 1)), (''ts'', JStr ts)]"
  by (simp add: dp_payload_def split: prod.splits)

lemma example_two_channels:
  "dp_walk (fst (DeviceEmulator_init ''s'' ''r'' ''d1'' 5 0 [2, 1] (example_world draws_half))) 2 =
     Some (RandomWalk_init (- 95) 3 (- 300) 20)"
  "dp_walk (fst (DeviceEmulator_init ''s'' ''r'' ''d1'' 5 0 [2, 1] (example_world draws_half))) 1 =
     Some (RandomWalk_init (- 80) 3 (- 300) 20)"
  by (simp_all add: DeviceEmulator_init_dp_walk example_world_def initial_world_def draws_half_def
      random_uniform_def random_random_def)


lemma init_dp_walk_seed_at:
  "ch \<in> set chs \<Longrightarrow>
     \<exists>k<length chs. chs ! k = ch \<and> fst (init_dp_walk chs m w) ch =
        Some (RandomWalk_init ((if ch = 1 then - 80 else - 95)
                + (- 8 + (8 - - 8) * rand_draws w (rand_pos w + k))) 3 (- 300) 20)"
proof (induction chs arbitrary: m w)
  case Nil
  then show ?case by simp
next
  case (Cons c cs)
  let ?m1 = "m(c \<mapsto> RandomWalk_init ((if c = 1 then - 80 else - 95)
                + (- 8 + (8 - - 8) * rand_draws w (rand_pos w))) 3 (- 300) 20)"
  let ?w1 = "w\<lparr>rand_pos := rand_pos w + 1\<rparr>"
  have step: "init_dp_walk (c # cs) m w = init_dp_walk cs ?m1 ?w1"
    by (simp add: random_uniform_def random_random_def Let_def)
  show ?case
  proof (cases "ch \<in> set cs")
    case True
    from Cons.IH[OF True, of ?m1 ?w1] obtain k where
      k: "k < length cs" "cs ! k = ch" "fst (init_dp_walk cs ?m1 ?w1) ch =
        Some (RandomWalk_init ((if ch = 1 then - 80 else - 95)
                + (- 8 + (8 - - 8) * rand_draws ?w1 (rand_pos ?w1 + k))) 3 (- 300) 20)"
      by blast
    have "Suc k < length (c # cs)" "(c # cs) ! Suc k = ch" using k(1,2) by simp_all
    moreover have "fst (init_dp_walk (c # cs) m w) ch =
        Some (RandomWalk_init ((if ch = 1 then - 80 else - 95)
                + (- 8 + (8 - - 8) * rand_draws w (rand_pos w + Suc k))) 3 (- 300) 20)"
      using k(3) unfolding step by simp
    ultimately show ?thesis by blast
  next
    case False
    with Cons.prems have eq: "ch = c" by simp
    have "fst (init_dp_walk (c # cs) m w) ch = ?m1 ch"
      unfolding step using False by (rule init_dp_walk_other)
    then have "fst (init_dp_walk (c # cs) m w) ch =
        Some (RandomWalk_init ((if ch = 1 then - 80 else - 95)
                + (- 8 + (8 - - 8) * rand_draws w (rand_pos w + 0))) 3 (- 300) 20)"
      using eq by simp
    moreover have "0 < length (c # cs)" "(c # cs) ! 0 = ch" using eq by simp_all
    ultimately show ?thesis by blast
  qed
qed

lemma dp_payload_result:
  "dp_walk emu ch = Some rw \<Longrightarrow>
     dp_payload emu ch ts w =
       (Inr [(''dp_pa'', JNum (round_py (fst (RandomWalk_next rw 0.5 w)) 1)), (''ts'', JStr ts)],
        emu\<lparr>dp_walk := (dp_walk emu)(ch \<mapsto> fst (snd (RandomWalk_next rw 0.5 w)))\<rparr>,
        snd (snd (RandomWalk_next rw 0.5 w)))"
  by (simp add: dp_payload_def split: prod.splits)

lemma dp_payload_missing:
  "dp_walk emu ch = None \<Longrightarrow> dp_payload emu ch ts w = (Inl KeyError, emu, w)"
  by (simp add: dp_payload_def)

lemma example_two_channels_tick:
  "fst (RandomWalk_next (RandomWalk_init (- 95) 3 (- 300) 20) 0.5 (example_world draws_half)) = - 94.2"
  "fst (snd (RandomWalk_next (RandomWalk_init (- 95) 3 (- 300) 20) 0.5 (example_world draws_half))) =
     RandomWalk_init (- 94.2) 3 (- 300) 20"
  by (simp_all add: RandomWalk_next_eq RandomWalk_init_def example_world_def initial_world_def
      draws_half_def clamp_def Let_def)

lemma round_py_dp_example: "round_py (- 94.2) 1 = - 94.2"
  by (simp add: round_py_def round_half_even_def)

text \<open>
  Claim C2, as the code has it. Every configured channel gets a walk with step 3 and bounds
  \<open>[-300, 20]\<close> whose start is its baseline plus \<^verbatim>\<open>uniform(-8, 8)\<close> of one draw made for
  an occurrence of the channel in the list: the baseline is \<open>-80\<close> for the channel whose
  identifier is 1, wherever it stands in the list, and \<open>-95\<close> for every other identifier;
  with the draw in \<open>[0, 1]\<close> the start is within 8 of the baseline. A tick of a channel, on
  any emulator, takes the walk stored for the channel, advances it by \<^verbatim>\<open>next\<close>, stores the
  advanced walk and reports its rounded value: the advance is computed from the stored
  value, the step and the bounds, and no baseline enters it.
\<close>

theorem DeviceEmulator_init_dp_baseline:
  assumes "ch \<in> set chs"
  shows "(\<exists>k<length chs. chs ! k = ch \<and>
            dp_walk (fst (DeviceEmulator_init s r d i q chs w)) ch =
              Some (RandomWalk_init
                 ((if ch = 1 then - 80 else - 95)
                    + (- 8 + (8 - - 8) * rand_draws w (rand_pos w + 2 + k))) 3 (- 300) 20) \<and>
            (0 \<le> rand_draws w (rand_pos w + 2 + k) \<and> rand_draws w (rand_pos w + 2 + k) \<le> 1 \<longrightarrow>
               \<bar>(if ch = 1 then - 80 else - 95)
                    + (- 8 + (8 - - 8) * rand_draws w (rand_pos w + 2 + k))
                  - (if ch = 1 then - 80 else - 95)\<bar> \<le> 8)) \<and>
         (\<forall>emu rw ts w'. dp_walk emu ch = Some rw \<longrightarrow>
            dp_payload emu ch ts w' =
              (Inr [(''dp_pa'', JNum (round_py (fst (RandomWalk_next rw 0.5 w')) 1)),
                    (''ts'', JStr ts)],
               emu\<lparr>dp_walk := (dp_walk emu)(ch \<mapsto> fst (snd (RandomWalk_next rw 0.5 w')))\<rparr>,
               snd (snd (RandomWalk_next rw 0.5 w'))) \<and>
            RandomWalk_next rw 0.5 w' =
              (clamp (v rw + (- step rw + (step rw - - step rw) * rand_draws w' (rand_pos w'))
                        + rand_draws w' (rand_pos w' + 1) * 0.5 * 0.01 * (hi rw - lo rw))
                 (lo rw) (hi rw),
               rw\<lparr>v := clamp (v rw + (- step rw + (step rw - - step rw) * rand_draws w' (rand_pos w'))
                        + rand_draws w' (rand_pos w' + 1) * 0.5 * 0.01 * (hi rw - lo rw))
                 (lo rw) (hi rw)\<rparr>,
               w'\<lparr>rand_pos := rand_pos w' + 2\<rparr>))"
proof -
  let ?w2 = "w\<lparr>rand_pos := rand_pos w + 2\<rparr>"
  from init_dp_walk_seed_at[OF assms, of Map.empty ?w2] obtain k where
    k: "k < length chs" "chs ! k = ch" "fst (init_dp_walk chs Map.empty ?w2) ch =
        Some (RandomWalk_init ((if ch = 1 then - 80 else - 95)
                + (- 8 + (8 - - 8) * rand_draws ?w2 (rand_pos ?w2 + k))) 3 (- 300) 20)"
    by blast
  let ?u = "rand_draws w (rand_pos w + 2 + k)"
  have a: "dp_walk (fst (DeviceEmulator_init s r d i q chs w)) ch =
      Some (RandomWalk_init ((if ch = 1 then - 80 else - 95) + (- 8 + (8 - - 8) * ?u)) 3 (- 300) 20)"
    using k(3) by (simp add: DeviceEmulator_init_dp_walk)
  have b: "0 \<le> ?u \<and> ?u \<le> 1 \<longrightarrow>
      \<bar>(if ch = 1 then - 80 else - 95) + (- 8 + (8 - - 8) * ?u) - (if ch = 1 then - 80 else - 95)\<bar> \<le> 8"
    by (simp add: abs_if)
  have c: "\<forall>emu rw ts w'. dp_walk emu ch = Some rw \<longrightarrow>
            dp_payload emu ch ts w' =
              (Inr [(''dp_pa'', JNum (round_py (fst (RandomWalk_next rw 0.5 w')) 1)),
                    (''ts'', JStr ts)],
               emu\<lparr>dp_walk := (dp_walk emu)(ch \<mapsto> fst (snd (RandomWalk_next rw 0.5 w')))\<rparr>,
               snd (snd (RandomWalk_next rw 0.5 w'))) \<and>
            RandomWalk_next rw 0.5 w' =
              (clamp (v rw + (- step rw + (step rw - - step rw) * rand_draws w' (rand_pos w'))
                        + rand_draws w' (rand_pos w' + 1) * 0.5 * 0.01 * (hi rw - lo rw))
                 (lo rw) (hi rw),
               rw\<lparr>v := clamp (v rw + (- step rw + (step rw - - step rw) * rand_draws w' (rand_pos w'))
                        + rand_draws w' (rand_pos w' + 1) * 0.5 * 0.01 * (hi rw - lo rw))
                 (lo rw) (hi rw)\<rparr>,
               w'\<lparr>rand_pos := rand_pos w' + 2\<rparr>)"
    using dp_payload_result RandomWalk_next_eq[of _ "0.5"] by (simp add: Let_def)
  from k(1,2) a b have "\<exists>k<length chs. chs ! k = ch \<and>
            dp_walk (fst (DeviceEmulator_init s r d i q chs w)) ch =
              Some (RandomWalk_init
                 ((if ch = 1 then - 80 else - 95)
                    + (- 8 + (8 - - 8) * rand_draws w (rand_pos w + 2 + k))) 3 (- 300) 20) \<and>
            (0 \<le> rand_draws w (rand_pos w + 2 + k) \<and> rand_draws w (rand_pos w + 2 + k) \<le> 1 \<longrightarrow>
               \<bar>(if ch = 1 then - 80 else - 95)
                    + (- 8 + (8 - - 8) * rand_draws w (rand_pos w + 2 + k))
                  - (if ch = 1 then - 80 else - 95)\<bar> \<le> 8)"
    by blast
  with c show ?thesis by blast
qed


theorem DeviceEmulator_init_dp_baseline_witness:
  "(2::int) \<in> set [2, 1] \<and>
   dp_walk (fst (DeviceEmulator_init ''s'' ''r'' ''d1'' 5 0 [2, 1] (example_world draws_half))) 2 =
     Some (RandomWalk_init (- 95) 3 (- 300) 20) \<and>
   fst (dp_payload (fst (DeviceEmulator_init ''s'' ''r'' ''d1'' 5 0 [2, 1] (example_world draws_half)))
          2 ''T0'' (example_world draws_half)) =
     Inr [(''dp_pa'', JNum (- 94.2)), (''ts'', JStr ''T0'')] \<and>
   dp_walk (fst (snd (dp_payload (fst (DeviceEmulator_init ''s'' ''r'' ''d1'' 5 0 [2, 1] (example_world draws_half)))
          2 ''T0'' (example_world draws_half)))) 2 =
     Some (RandomWalk_init (- 94.2) 3 (- 300) 20)"
proof -
  let ?E = "fst (DeviceEmulator_init ''s'' ''r'' ''d1'' 5 0 [2, 1] (example_world draws_half))"
  let ?W = "example_world draws_half"
  let ?rw = "RandomWalk_init (- 95) 3 (- 300) 20"
  have h: "(2::int) \<in> set [2, 1]" by simp
  note t = DeviceEmulator_init_dp_baseline[OF h, of "''s''" "''r''" "''d1''" 5 0 ?W]
  have a: "dp_walk ?E 2 = Some ?rw" by (rule example_two_channels(1))
  from t a have "dp_payload ?E 2 ''T0'' ?W =
      (Inr [(''dp_pa'', JNum (round_py (fst (RandomWalk_next ?rw 0.5 ?W)) 1)), (''ts'', JStr ''T0'')],
       ?E\<lparr>dp_walk := (dp_walk ?E)(2 \<mapsto> fst (snd (RandomWalk_next ?rw 0.5 ?W)))\<rparr>,
       snd (snd (RandomWalk_next ?rw 0.5 ?W)))"
    by blast
  then have "fst (dp_payload ?E 2 ''T0'' ?W) = Inr [(''dp_pa'', JNum (- 94.2)), (''ts'', JStr ''T0'')]"
    and "dp_walk (fst (snd (dp_payload ?E 2 ''T0'' ?W))) 2 = Some (RandomWalk_init (- 94.2) 3 (- 300) 20)"
    using round_py_dp_example example_two_channels_tick by simp_all
  with h a show ?thesis by (simp only: simp_thms)
qed

text \<open>
  Against claim C2 as stated: with the channels configured as \<open>2, 1\<close> and draws of 0.5, the
  first configured channel, 2, starts at \<open>-95\<close>, and the other channel, 1, at \<open>-80\<close>.
\<close>

theorem DeviceEmulator_init_dp_baseline_counterexample:
  "dp_walk (fst (DeviceEmulator_init ''s'' ''r'' ''d1'' 5 0 [2, 1] (example_world draws_half))) 2 =
     Some (RandomWalk_init (- 95) 3 (- 300) 20) \<and>
   dp_walk (fst (DeviceEmulator_init ''s'' ''r'' ''d1'' 5 0 [2, 1] (example_world draws_half))) 1 =
     Some (RandomWalk_init (- 80) 3 (- 300) 20)"
  using example_two_channels by simp

section \<open>Publishing\<close>

lemma publishes_append [simp]: "publishes (es @ fs) = publishes es @ publishes fs"
  by (induction es rule: publishes.induct) simp_all

lemma publishes_map_Publish [simp]: "publishes (map Publish cs) = cs"
  by (induction cs) simp_all

lemma sleeps_append [simp]: "sleeps (es @ fs) = sleeps es @ sleeps fs"
  by (induction es rule: sleeps.induct) simp_all

lemma sleeps_map_Publish [simp]: "sleeps (map Publish cs) = []"
  by (induction cs) simp_all

lemma attempts_le: "attempts R p m \<le> m"
  by (induction m arbitrary: p) auto

lemma attempts_no_fail: "\<not> fails R p m \<Longrightarrow> attempts R p m = m"
  by (induction m arbitrary: p) (auto split: if_splits)

lemma attempts_add:
  "attempts R p (m + n) = (if fails R p m then attempts R p m else m + attempts R (p + m) n)"
  by (induction m arbitrary: p) auto

lemma fails_add: "fails R p (m + n) \<longleftrightarrow> fails R p m \<or> fails R (p + m) n"
  by (induction m arbitrary: p) auto

lemma fails_iff: "fails R p m \<longleftrightarrow> (\<exists>i<m. R (p + i))"
proof (induction m arbitrary: p)
  case 0
  then show ?case by simp
next
  case (Suc m)
  show ?case
  proof (cases "R p")
    case True
    then have "\<exists>i<Suc m. R (p + i)" by (intro exI[of _ 0]) simp
    with True show ?thesis by simp
  next
    case False
    have "(\<exists>i<m. R (Suc p + i)) \<longleftrightarrow> (\<exists>i<Suc m. R (p + i))"
    proof
      assume "\<exists>i<m. R (Suc p + i)"
      then obtain i where "i < m" "R (Suc p + i)" by blast
      then have "Suc i < Suc m \<and> R (p + Suc i)" by simp
      then show "\<exists>i<Suc m. R (p + i)" by blast
    next
      assume "\<exists>i<Suc m. R (p + i)"
      then obtain i where i: "i < Suc m" "R (p + i)" by blast
      with False have "i \<noteq> 0" by (cases i) auto
      then obtain j where "i = Suc j" by (cases i) auto
      with i have "j < m \<and> R (Suc p + j)" by simp
      then show "\<exists>i<m. R (Suc p + i)" by blast
    qed
    with False Suc.IH[of "Suc p"] show ?thesis by simp
  qed
qed

lemma pubs_refl: "pubs w [] w"
  by (simp add: pubs_def)

lemma pubs_trans: "pubs w cs w1 \<Longrightarrow> pubs w1 ds w2 \<Longrightarrow> pubs w (cs @ ds) w2"
  by (simp add: pubs_def)

lemma pubs_rand: "pubs w [] (w\<lparr>rand_pos := n\<rparr>)"
  by (simp add: pubs_def)

lemma calls_ok_Nil: "calls_ok R p [] [] Done"
  by (simp add: calls_ok_def)

lemma calls_ok_seq:
  assumes "calls_ok R p S1 cs1 out1"
    and "out1 = Done \<Longrightarrow> calls_ok R (p + length cs1) S2 cs2 out2"
    and "out1 \<noteq> Done \<Longrightarrow> cs2 = [] \<and> out2 = out1"
  shows "calls_ok R p (S1 @ S2) (cs1 @ cs2) out2"
proof (cases "fails R p (length S1)")
  case True
  with assms(1) have o: "out1 = Raised PublishError" by (simp add: calls_ok_def)
  with assms(3) have e: "cs2 = []" "out2 = Raised PublishError" by auto
  from assms(1) have l: "length cs1 = attempts R p (length S1)" "map shape cs1 = take (length cs1) S1"
    by (simp_all add: calls_ok_def)
  have "length cs1 \<le> length S1" using l(1) attempts_le by simp
  with True l e show ?thesis
    by (simp add: calls_ok_def attempts_add fails_add)
next
  case False
  with assms(1) have o: "out1 = Done" by (simp add: calls_ok_def)
  from assms(1) False have l: "length cs1 = length S1" "map shape cs1 = S1"
    by (simp_all add: calls_ok_def attempts_no_fail)
  from assms(2)[OF o] l have c2: "length cs2 = attempts R (p + length S1) (length S2)"
    "map shape cs2 = take (length cs2) S2"
    "out2 = (if fails R (p + length S1) (length S2) then Raised PublishError else Done)"
    by (simp_all add: calls_ok_def)
  with False l show ?thesis
    by (simp add: calls_ok_def attempts_add fails_add)
qed

lemma calls_ok_one:
  "shape c = s \<Longrightarrow> calls_ok R p [s] [c] (if R p then Raised PublishError else Done)"
  by (simp add: calls_ok_def)

lemma client_publish_pubs:
  "client_publish t b q r w = (out, w') \<Longrightarrow>
     pubs w [\<lparr>topic = t, body = b, call_qos = q, retain = r\<rparr>] w' \<and>
     out = (if publish_raises w (publish_pos w) then Raised PublishError else Done) \<and>
     wall_pos w' = wall_pos w \<and> rand_pos w' = rand_pos w"
  by (auto simp: client_publish_def pubs_def)

lemma publish_status_pubs:
  assumes "publish_status emu online w = (out, w')"
  shows "\<exists>c. pubs w [c] w' \<and> shape c = status_shape emu online \<and>
             out = (if publish_raises w (publish_pos w) then Raised PublishError else Done)"
  using assms
  by (auto simp: publish_status_def client_publish_def pubs_def shape_def status_shape_def
      random_randint_def random_random_def rfc3339_now_def split: prod.splits)

lemma publish_status_all_pubs:
  "publish_status_all emus online w = (out, w') \<Longrightarrow>
     \<exists>cs. pubs w cs w' \<and>
          calls_ok (publish_raises w) (publish_pos w) (map (\<lambda>e. status_shape e online) emus) cs out"
proof (induction emus arbitrary: w out w')
  case Nil
  then show ?case by (auto simp: pubs_refl calls_ok_Nil intro!: exI[of _ "[]"])
next
  case (Cons emu emus)
  obtain o1 w1 where s: "publish_status emu online w = (o1, w1)" by (metis prod.exhaust)
  from publish_status_pubs[OF s] obtain c where c: "pubs w [c] w1" "shape c = status_shape emu online"
    "o1 = (if publish_raises w (publish_pos w) then Raised PublishError else Done)" by blast
  have c1: "calls_ok (publish_raises w) (publish_pos w) [status_shape emu online] [c] o1"
    using calls_ok_one[OF c(2)] c(3) by simp
  show ?case
  proof (cases o1)
    case Done
    with Cons.prems s have r: "publish_status_all emus online w1 = (out, w')" by simp
    from Cons.IH[OF r] obtain cs where cs: "pubs w1 cs w'"
      "calls_ok (publish_raises w1) (publish_pos w1) (map (\<lambda>e. status_shape e online) emus) cs out"
      by blast
    from c(1) have e: "publish_raises w1 = publish_raises w" "publish_pos w1 = publish_pos w + length [c]"
      by (simp_all add: pubs_def)
    have "calls_ok (publish_raises w) (publish_pos w)
            ([status_shape emu online] @ map (\<lambda>e. status_shape e online) emus) ([c] @ cs) out"
      using c1 cs(2) Done unfolding e by (intro calls_ok_seq[where ?out1.0 = o1]) auto
    with pubs_trans[OF c(1) cs(1)] show ?thesis by auto
  next
    case (Raised x)
    with Cons.prems s have r: "out = o1" "w' = w1" by simp_all
    have "calls_ok (publish_raises w) (publish_pos w)
            ([status_shape emu online] @ map (\<lambda>e. status_shape e online) emus) ([c] @ []) out"
      using c1 Raised r by (intro calls_ok_seq[where ?out1.0 = o1]) auto
    with c(1) r show ?thesis by auto
  qed
qed

lemma ident_topics:
  assumes "ident emu' = ident emu"
  shows "topic_bme emu' = topic_bme emu" "topic_sps emu' = topic_sps emu"
    "topic_dp emu' ch = topic_dp emu ch" "topic_status emu' = topic_status emu"
    "round_shapes emu' = round_shapes emu" "status_shape emu' online = status_shape emu online"
    "qos emu' = qos emu" "dp_channels emu' = dp_channels emu"
  using assms
  by (simp_all add: ident_def topic_bme_def topic_sps_def topic_dp_def topic_status_def base_def
      round_shapes_def status_shape_def)

lemma bme_payload_effect:
  assumes "bme_payload emu ts w = (p, emu', w')"
  shows "\<exists>n. w' = w\<lparr>rand_pos := n\<rparr>" and "ident emu' = ident emu" and "dp_walk emu' = dp_walk emu"
    and "map_of p ''ts'' = Some (JStr ts)" and "map_of p ''online'' = None"
  using assms
  by (auto simp: bme_payload_def Let_def RandomWalk_next_eq random_uniform_def random_random_def
      ident_def split: prod.splits if_splits)

lemma sps_payload_effect:
  assumes "sps_payload emu ts w = (p, emu', w')"
  shows "\<exists>n. w' = w\<lparr>rand_pos := n\<rparr>" and "ident emu' = ident emu" and "dp_walk emu' = dp_walk emu"
    and "map_of p ''ts'' = Some (JStr ts)" and "map_of p ''online'' = None"
  using assms
  by (auto simp: sps_payload_def Let_def RandomWalk_next_eq random_uniform_def random_random_def
      ident_def split: prod.splits if_splits)

lemma dp_payload_effect:
  assumes "dp_payload emu ch ts w = (r, emu', w')" and "dp_walk emu ch \<noteq> None"
  shows "\<exists>n. w' = w\<lparr>rand_pos := n\<rparr>" and "ident emu' = ident emu"
    and "\<And>c. dp_walk emu' c \<noteq> None \<longleftrightarrow> dp_walk emu c \<noteq> None"
    and "\<exists>p. r = Inr p \<and> map_of p ''ts'' = Some (JStr ts) \<and> map_of p ''online'' = None"
  using assms
  by (auto simp: dp_payload_def Let_def RandomWalk_next_eq ident_def
      split: prod.splits option.splits if_splits)

lemma good_ident:
  "ident emu' = ident emu \<Longrightarrow> (\<And>c. dp_walk emu' c \<noteq> None \<longleftrightarrow> dp_walk emu c \<noteq> None) \<Longrightarrow>
     good emu' = good emu"
  by (simp add: good_def ident_def)

lemma publish_dp_loop_pubs:
  "publish_dp_loop chs emu ts w = (out, emu', w') \<Longrightarrow> list_all (\<lambda>ch. dp_walk emu ch \<noteq> None) chs \<Longrightarrow>
     \<exists>cs. pubs w cs w' \<and>
          calls_ok (publish_raises w) (publish_pos w)
            (map (\<lambda>ch. (topic_dp emu ch, False, None)) chs) cs out \<and>
          ident emu' = ident emu \<and> (\<forall>c. dp_walk emu' c \<noteq> None \<longleftrightarrow> dp_walk emu c \<noteq> None) \<and>
          list_all (has_ts ts) cs \<and> wall_pos w' = wall_pos w"
proof (induction chs arbitrary: emu w out emu' w')
  case Nil
  then show ?case by (auto simp: pubs_refl calls_ok_Nil intro!: exI[of _ "[]"])
next
  case (Cons ch chs)
  from Cons.prems(2) have g: "dp_walk emu ch \<noteq> None" "list_all (\<lambda>ch. dp_walk emu ch \<noteq> None) chs"
    by simp_all
  obtain r emu1 w1 where d: "dp_payload emu ch ts w = (r, emu1, w1)" by (metis prod_cases3)
  note e = dp_payload_effect[OF d g(1)]
  from e(4) obtain p where p: "r = Inr p" "map_of p ''ts'' = Some (JStr ts)" "map_of p ''online'' = None"
    by blast
  from e(1) obtain n where n: "w1 = w\<lparr>rand_pos := n\<rparr>" by blast
  obtain o1 w2 where c: "client_publish (topic_dp emu1 ch) p (qos emu1) False w1 = (o1, w2)"
    by (metis prod.exhaust)
  let ?c = "\<lparr>topic = topic_dp emu1 ch, body = p, call_qos = qos emu1, retain = False\<rparr>"
  note cp = client_publish_pubs[OF c]
  have pw: "pubs w [?c] w2"
    using pubs_trans[OF pubs_rand[of w n] cp[THEN conjunct1, unfolded n]] by simp
  have sh: "shape ?c = (topic_dp emu ch, False, None)"
    using p(3) ident_topics(3)[OF e(2)] by (simp add: shape_def)
  have o1: "o1 = (if publish_raises w (publish_pos w) then Raised PublishError else Done)"
    using cp n by simp
  have c1: "calls_ok (publish_raises w) (publish_pos w) [(topic_dp emu ch, False, None)] [?c] o1"
    using calls_ok_one[OF sh] o1 by simp
  have ts: "has_ts ts ?c" using p(2) by (simp add: has_ts_def)
  have wp: "wall_pos w2 = wall_pos w" using cp n by simp
  show ?case
  proof (cases o1)
    case Done
    with Cons.prems(1) d p c have r: "publish_dp_loop chs emu1 ts w2 = (out, emu', w')" by simp
    have g1: "list_all (\<lambda>ch. dp_walk emu1 ch \<noteq> None) chs"
      using g(2) e(3) by (simp add: list_all_iff)
    from Cons.IH[OF r g1] obtain cs where cs: "pubs w2 cs w'"
      "calls_ok (publish_raises w2) (publish_pos w2) (map (\<lambda>ch. (topic_dp emu1 ch, False, None)) chs) cs out"
      "ident emu' = ident emu1" "\<forall>c. dp_walk emu' c \<noteq> None \<longleftrightarrow> dp_walk emu1 c \<noteq> None"
      "list_all (has_ts ts) cs" "wall_pos w' = wall_pos w2"
      by blast
    from pw have eq: "publish_raises w2 = publish_raises w" "publish_pos w2 = publish_pos w + length [?c]"
      by (simp_all add: pubs_def)
    have tp: "(\<lambda>ch. (topic_dp emu1 ch, False, None)) = (\<lambda>ch. (topic_dp emu ch, False, None))"
      using ident_topics(3)[OF e(2)] by simp
    have "calls_ok (publish_raises w) (publish_pos w)
            ([(topic_dp emu ch, False, None)] @ map (\<lambda>ch. (topic_dp emu ch, False, None)) chs)
            ([?c] @ cs) out"
      using c1 cs(2) Done unfolding eq tp by (intro calls_ok_seq[where ?out1.0 = o1]) auto
    moreover have "pubs w ([?c] @ cs) w'" using pubs_trans[OF pw cs(1)] .
    moreover have "ident emu' = ident emu" using cs(3) e(2) by simp
    moreover have "\<forall>c. dp_walk emu' c \<noteq> None \<longleftrightarrow> dp_walk emu c \<noteq> None" using cs(4) e(3) by simp
    moreover have "list_all (has_ts ts) ([?c] @ cs)" using ts cs(5) by simp
    moreover have "wall_pos w' = wall_pos w" using cs(6) wp by simp
    ultimately show ?thesis by (intro exI[of _ "[?c] @ cs"]) simp
  next
    case (Raised x)
    with Cons.prems(1) d p c have r: "out = o1" "emu' = emu1" "w' = w2" by simp_all
    have "calls_ok (publish_raises w) (publish_pos w)
            ([(topic_dp emu ch, False, None)] @ map (\<lambda>ch. (topic_dp emu ch, False, None)) chs)
            ([?c] @ []) out"
      using c1 Raised r by (intro calls_ok_seq[where ?out1.0 = o1]) auto
    with pw r e(2,3) ts wp show ?thesis by (intro exI[of _ "[?c]"]) simp
  qed
qed

lemma step_ok_seq:
  assumes "step_ok w S1 cs1 o1 w1"
    and "o1 = Done \<Longrightarrow> step_ok w1 S2 cs2 o2 w2"
    and "o1 \<noteq> Done \<Longrightarrow> cs2 = [] \<and> o2 = o1 \<and> w2 = w1"
  shows "step_ok w (S1 @ S2) (cs1 @ cs2) o2 w2"
proof -
  from assms(1) have p1: "pubs w cs1 w1"
    and c1: "calls_ok (publish_raises w) (publish_pos w) S1 cs1 o1"
    by (simp_all add: step_ok_def)
  from p1 have eq: "publish_raises w1 = publish_raises w" "publish_pos w1 = publish_pos w + length cs1"
    by (simp_all add: pubs_def)
  have p2: "pubs w1 cs2 w2"
  proof (cases "o1 = Done")
    case True
    from assms(2)[OF True] show ?thesis by (simp add: step_ok_def)
  next
    case False
    from assms(3)[OF False] show ?thesis by (simp add: pubs_refl)
  qed
  have "calls_ok (publish_raises w) (publish_pos w) (S1 @ S2) (cs1 @ cs2) o2"
  proof (rule calls_ok_seq[OF c1])
    assume "o1 = Done"
    from assms(2)[OF this] show "calls_ok (publish_raises w) (publish_pos w + length cs1) S2 cs2 o2"
      by (simp add: step_ok_def eq)
  next
    assume "o1 \<noteq> Done"
    from assms(3)[OF this] show "cs2 = [] \<and> o2 = o1" by simp
  qed
  with pubs_trans[OF p1 p2] show ?thesis by (simp add: step_ok_def)
qed

lemma step_ok_then:
  "step_ok w S1 cs1 Done w1 \<Longrightarrow> step_ok w1 S2 cs2 o2 w2 \<Longrightarrow>
     step_ok w (S1 @ S2) (cs1 @ cs2) o2 w2"
  by (rule step_ok_seq[where ?o1.0 = Done and ?w1.0 = w1]) simp_all

lemma step_ok_stop:
  "step_ok w S1 cs1 (Raised e) w1 \<Longrightarrow> step_ok w (S1 @ S2) cs1 (Raised e) w1"
  using step_ok_seq[where ?o1.0 = "Raised e" and ?w1.0 = w1 and ?cs2.0 = "[]" and ?o2.0 = "Raised e"
      and ?w2.0 = w1 and w = w and ?S1.0 = S1 and ?cs1.0 = cs1 and ?S2.0 = S2]
  by simp

lemma step_ok_pre:
  "pubs w [] w1 \<Longrightarrow> step_ok w1 S cs out w2 \<Longrightarrow> step_ok w S cs out w2"
  by (auto simp: step_ok_def pubs_def)

lemma publish_payload:
  assumes "client_publish t p q False w1 = (o1, w2)"
    and "map_of p ''online'' = None" and "map_of p ''ts'' = Some (JStr ts)"
  shows "\<exists>c. step_ok w1 [(t, False, None)] [c] o1 w2 \<and> has_ts ts c \<and> wall_pos w2 = wall_pos w1"
proof -
  let ?c = "\<lparr>topic = t, body = p, call_qos = q, retain = False\<rparr>"
  note cp = client_publish_pubs[OF assms(1)]
  have "shape ?c = (t, False, None)" using assms(2) by (simp add: shape_def)
  from calls_ok_one[OF this] cp have "step_ok w1 [(t, False, None)] [?c] o1 w2"
    by (simp add: step_ok_def)
  moreover have "has_ts ts ?c" using assms(3) by (simp add: has_ts_def)
  ultimately show ?thesis using cp by blast
qed

lemma publish_once_pubs:
  assumes po: "publish_once emu w = (out, emu', w')" and g: "good emu"
  shows "\<exists>cs. step_ok w (round_shapes emu) cs out w' \<and>
          ident emu' = ident emu \<and> (\<forall>c. dp_walk emu' c \<noteq> None \<longleftrightarrow> dp_walk emu c \<noteq> None) \<and>
          list_all (has_ts (wall_clock w (wall_pos w))) cs \<and> wall_pos w' = wall_pos w + 1"
proof -
  let ?ts = "wall_clock w (wall_pos w)"
  let ?w0 = "w\<lparr>wall_pos := wall_pos w + 1\<rparr>"
  have rfc: "rfc3339_now w = (?ts, ?w0)" by (simp add: rfc3339_now_def)
  have pre0: "pubs w [] ?w0" by (simp add: pubs_def)
  obtain p1 emu1 w1 where b: "bme_payload emu ?ts ?w0 = (p1, emu1, w1)" by (metis prod_cases3)
  note be = bme_payload_effect[OF b]
  from be(1) obtain n1 where n1: "w1 = ?w0\<lparr>rand_pos := n1\<rparr>" by blast
  have pre1: "pubs w [] w1" unfolding n1 by (simp add: pubs_def)
  have wp1: "wall_pos w1 = wall_pos w + 1" unfolding n1 by simp
  obtain o1 w2 where c1: "client_publish (topic_bme emu1) p1 (qos emu1) False w1 = (o1, w2)"
    by (metis prod.exhaust)
  from publish_payload[OF c1 be(5) be(4)] obtain x1 where
    x1: "step_ok w1 [(topic_bme emu1, False, None)] [x1] o1 w2" "has_ts ?ts x1" "wall_pos w2 = wall_pos w1"
    by blast
  have s1: "step_ok w [(topic_bme emu, False, None)] [x1] o1 w2"
    using step_ok_pre[OF pre1 x1(1)] ident_topics(1)[OF be(2)] by simp
  have rs: "round_shapes emu = [(topic_bme emu, False, None)] @
      ([(topic_sps emu, False, None)] @ map (\<lambda>ch. (topic_dp emu ch, False, None)) (dp_channels emu))"
    by (simp add: round_shapes_def)
  show ?thesis
  proof (cases o1)
    case (Raised e1)
    with po rfc b c1 have r: "out = o1" "emu' = emu1" "w' = w2"
      by (simp_all add: publish_once_def)
    have "step_ok w (round_shapes emu) [x1] out w'"
      unfolding rs using step_ok_stop[OF s1[unfolded Raised]] Raised r by simp
    with r be(2,3) x1(2,3) wp1 show ?thesis by (intro exI[of _ "[x1]"]) simp
  next
    case Done
    obtain p2 emu2 w3 where s: "sps_payload emu1 ?ts w2 = (p2, emu2, w3)" by (metis prod_cases3)
    note se = sps_payload_effect[OF s]
    from se(1) obtain n2 where n2: "w3 = w2\<lparr>rand_pos := n2\<rparr>" by blast
    have pre2: "pubs w2 [] w3" unfolding n2 by (simp add: pubs_def)
    have wp3: "wall_pos w3 = wall_pos w + 1" unfolding n2 using x1(3) wp1 by simp
    obtain o2 w4 where c2: "client_publish (topic_sps emu2) p2 (qos emu2) False w3 = (o2, w4)"
      by (metis prod.exhaust)
    from publish_payload[OF c2 se(5) se(4)] obtain x2 where
      x2: "step_ok w3 [(topic_sps emu2, False, None)] [x2] o2 w4" "has_ts ?ts x2" "wall_pos w4 = wall_pos w3"
      by blast
    have id2: "ident emu2 = ident emu" using se(2) be(2) by simp
    have dw2: "dp_walk emu2 = dp_walk emu" using se(3) be(3) by simp
    have s2: "step_ok w2 [(topic_sps emu, False, None)] [x2] o2 w4"
      using step_ok_pre[OF pre2 x2(1)] ident_topics(2)[OF id2] by simp
    show ?thesis
    proof (cases o2)
      case (Raised e2)
      with po rfc b c1 Done s c2 have r: "out = o2" "emu' = emu2" "w' = w4"
        by (simp_all add: publish_once_def)
      have "step_ok w2 ([(topic_sps emu, False, None)] @ map (\<lambda>ch. (topic_dp emu ch, False, None)) (dp_channels emu))
              [x2] out w'"
        using step_ok_stop[OF s2[unfolded Raised]] Raised r by simp
      from step_ok_then[OF s1[unfolded Done] this]
      have "step_ok w (round_shapes emu) ([x1] @ [x2]) out w'"
        unfolding rs .
      with r id2 dw2 x1(2) x2(2,3) wp3 show ?thesis by (intro exI[of _ "[x1, x2]"]) simp
    next
      case Done2: Done
      from po rfc b c1 Done s c2 Done2
      have l: "publish_dp_loop (dp_channels emu2) emu2 ?ts w4 = (out, emu', w')"
        by (simp add: publish_once_def)
      have g2: "list_all (\<lambda>ch. dp_walk emu2 ch \<noteq> None) (dp_channels emu2)"
        using g dw2 ident_topics(8)[OF id2] by (simp add: good_def)
      from publish_dp_loop_pubs[OF l g2] obtain ds where
        ds: "pubs w4 ds w'"
        "calls_ok (publish_raises w4) (publish_pos w4)
            (map (\<lambda>ch. (topic_dp emu2 ch, False, None)) (dp_channels emu2)) ds out"
        "ident emu' = ident emu2" "\<forall>c. dp_walk emu' c \<noteq> None \<longleftrightarrow> dp_walk emu2 c \<noteq> None"
        "list_all (has_ts ?ts) ds" "wall_pos w' = wall_pos w4"
        by blast
      have tp: "map (\<lambda>ch. (topic_dp emu2 ch, False, None)) (dp_channels emu2) =
                map (\<lambda>ch. (topic_dp emu ch, False, None)) (dp_channels emu)"
        using ident_topics(3)[OF id2] ident_topics(8)[OF id2] by simp
      have s3: "step_ok w4 (map (\<lambda>ch. (topic_dp emu ch, False, None)) (dp_channels emu)) ds out w'"
        using ds(1,2) unfolding tp by (simp add: step_ok_def)
      from step_ok_then[OF s1[unfolded Done] step_ok_then[OF s2[unfolded Done2] s3]]
      have "step_ok w (round_shapes emu) ([x1] @ ([x2] @ ds)) out w'"
        unfolding rs .
      moreover have "ident emu' = ident emu" using ds(3) id2 by simp
      moreover have "\<forall>c. dp_walk emu' c \<noteq> None \<longleftrightarrow> dp_walk emu c \<noteq> None" using ds(4) dw2 by simp
      moreover have "list_all (has_ts ?ts) ([x1] @ ([x2] @ ds))" using x1(2) x2(2) ds(5) by simp
      moreover have "wall_pos w' = wall_pos w + 1" using ds(6) x2(3) wp3 by simp
      ultimately show ?thesis by (intro exI[of _ "[x1] @ ([x2] @ ds)"]) simp
    qed
  qed
qed

lemma step_ok_run_ok: "step_ok w S cs out w' \<Longrightarrow> run_ok w S cs out w'"
  by (simp add: step_ok_def run_ok_def pubs_def runs_def)

lemma run_ok_then:
  assumes "run_ok w S1 cs1 Done w1" and "run_ok w1 S2 cs2 o2 w2"
  shows "run_ok w (S1 @ S2) (cs1 @ cs2) o2 w2"
proof -
  from assms(1) have r1: "runs w cs1 w1"
    and c1: "calls_ok (publish_raises w) (publish_pos w) S1 cs1 Done"
    by (simp_all add: run_ok_def)
  from r1 have eq: "publish_raises w1 = publish_raises w" "publish_pos w1 = publish_pos w + length cs1"
    by (simp_all add: runs_def)
  from assms(2) have r2: "runs w1 cs2 w2"
    and c2: "calls_ok (publish_raises w) (publish_pos w + length cs1) S2 cs2 o2"
    by (simp_all add: run_ok_def eq)
  have "calls_ok (publish_raises w) (publish_pos w) (S1 @ S2) (cs1 @ cs2) o2"
    by (rule calls_ok_seq[OF c1]) (use c2 in simp_all)
  moreover have "runs w (cs1 @ cs2) w2"
    using r1 r2 by (simp add: runs_def)
  ultimately show ?thesis by (simp add: run_ok_def)
qed

lemma run_ok_stop:
  assumes "run_ok w S1 cs1 (Raised e) w1"
  shows "run_ok w (S1 @ S2) cs1 (Raised e) w1"
proof -
  from assms have c1: "calls_ok (publish_raises w) (publish_pos w) S1 cs1 (Raised e)"
    by (simp add: run_ok_def)
  have "calls_ok (publish_raises w) (publish_pos w) (S1 @ S2) (cs1 @ []) (Raised e)"
    by (rule calls_ok_seq[OF c1]) simp_all
  with assms show ?thesis by (simp add: run_ok_def)
qed

lemma run_ok_pre:
  "runs w [] w1 \<Longrightarrow> run_ok w1 S cs out w2 \<Longrightarrow> run_ok w S cs out w2"
  by (auto simp: run_ok_def runs_def)

lemma run_ok_post:
  "run_ok w S cs out w1 \<Longrightarrow> runs w1 [] w2 \<Longrightarrow> run_ok w S cs out w2"
  by (auto simp: run_ok_def runs_def)

lemma publish_round_pubs:
  "publish_round emus w = (out, emus', w') \<Longrightarrow> list_all good emus \<Longrightarrow>
     \<exists>cs. step_ok w (concat (map round_shapes emus)) cs out w' \<and>
          map ident emus' = map ident emus \<and> list_all good emus'"
proof (induction emus arbitrary: w out emus' w')
  case Nil
  then show ?case
    by (auto simp: step_ok_def pubs_refl calls_ok_Nil intro!: exI[of _ "[]"])
next
  case (Cons emu emus)
  from Cons.prems(2) have g: "good emu" "list_all good emus" by simp_all
  obtain o1 emu1 w1 where po: "publish_once emu w = (o1, emu1, w1)" by (metis prod_cases3)
  from publish_once_pubs[OF po g(1)] obtain cs1 where
    cs1: "step_ok w (round_shapes emu) cs1 o1 w1" "ident emu1 = ident emu"
      "\<forall>c. dp_walk emu1 c \<noteq> None \<longleftrightarrow> dp_walk emu c \<noteq> None"
    by blast
  have g1: "good emu1"
    using good_ident[OF cs1(2)] cs1(3) g(1) by blast
  show ?case
  proof (cases o1)
    case Done
    obtain r emus1 w2 where pr: "publish_round emus w1 = (r, emus1, w2)" by (metis prod_cases3)
    with Cons.prems(1) po Done have res: "out = r" "emus' = emu1 # emus1" "w' = w2" by simp_all
    from Cons.IH[OF pr g(2)] obtain cs2 where
      cs2: "step_ok w1 (concat (map round_shapes emus)) cs2 r w2"
        "map ident emus1 = map ident emus" "list_all good emus1"
      by blast
    from step_ok_then[OF cs1(1)[unfolded Done] cs2(1)] res cs1(2) cs2(2,3) g1
    show ?thesis by (intro exI[of _ "cs1 @ cs2"]) simp
  next
    case (Raised e)
    with Cons.prems(1) po have res: "out = Raised e" "emus' = emu1 # emus" "w' = w1" by simp_all
    from step_ok_stop[OF cs1(1)[unfolded Raised], of "concat (map round_shapes emus)"] res cs1(2) g g1
    show ?thesis by (intro exI[of _ cs1]) simp
  qed
qed

lemma loop_body_effect:
  assumes lb: "loop_body i emus w = (out, emus', w')" and g: "list_all good emus"
  shows "\<exists>cs. run_ok w (concat (map round_shapes emus)) cs out w' \<and>
          map ident emus' = map ident emus \<and> list_all good emus' \<and> poll_pos w' = poll_pos w \<and>
          (out = Done \<longrightarrow>
             mono_pos w' = mono_pos w + 2 \<and>
             trace w' = trace w @ map Publish cs @
               (if 0 < i - (mono_clock w (mono_pos w + 1) - mono_clock w (mono_pos w))
                then [Sleep (i - (mono_clock w (mono_pos w + 1) - mono_clock w (mono_pos w)))]
                else []))"
proof -
  let ?start = "mono_clock w (mono_pos w)"
  let ?w1 = "w\<lparr>mono_pos := mono_pos w + 1\<rparr>"
  have tt: "time_time w = (?start, ?w1)" by (simp add: time_time_def)
  obtain r emus1 w2 where pr: "publish_round emus ?w1 = (r, emus1, w2)" by (metis prod_cases3)
  from publish_round_pubs[OF pr g] obtain cs where
    cs: "step_ok ?w1 (concat (map round_shapes emus)) cs r w2"
      "map ident emus1 = map ident emus" "list_all good emus1"
    by blast
  from cs(1) have p: "pubs ?w1 cs w2" by (simp add: step_ok_def)
  have pre: "runs w [] ?w1" by (simp add: runs_def)
  note ro = run_ok_pre[OF pre step_ok_run_ok[OF cs(1)]]
  show ?thesis
  proof (cases r)
    case (Raised e)
    with lb tt pr have res: "out = Raised e" "emus' = emus1" "w' = w2"
      by (simp_all add: loop_body_def)
    with ro Raised cs(2,3) p show ?thesis
      by (intro exI[of _ cs]) (simp add: pubs_def)
  next
    case Done
    let ?now = "mono_clock w (mono_pos w + 1)"
    let ?w3 = "w2\<lparr>mono_pos := mono_pos w + 2\<rparr>"
    have tt2: "time_time w2 = (?now, ?w3)"
      using p by (simp add: time_time_def pubs_def)
    let ?s = "i - (?now - ?start)"
    from lb tt pr Done tt2 have res: "out = Done" "emus' = emus1"
      "w' = (if 0 < ?s then time_sleep ?s ?w3 else ?w3)"
      by (auto simp: loop_body_def Let_def)
    have post: "runs w2 [] w'"
      unfolding res by (simp add: runs_def time_sleep_def)
    have "run_ok w (concat (map round_shapes emus)) cs out w'"
      using run_ok_post[OF ro post] Done res(1) by simp
    moreover have "poll_pos w' = poll_pos w"
      unfolding res using p by (simp add: pubs_def time_sleep_def)
    moreover have "mono_pos w' = mono_pos w + 2"
      unfolding res by (simp add: time_sleep_def)
    moreover have "trace w' = trace w @ map Publish cs @ (if 0 < ?s then [Sleep ?s] else [])"
      unfolding res using p by (simp add: pubs_def time_sleep_def)
    ultimately show ?thesis
      using cs(2,3) res(2) by (intro exI[of _ cs]) simp
  qed
qed

section \<open>The loop and the whole run\<close>

lemma first_stop_iff: "first_stop f p N \<longleftrightarrow> f (p + N) \<and> (\<forall>k<N. \<not> f (p + k))"
proof (induction N arbitrary: p)
  case 0
  then show ?case by simp
next
  case (Suc N)
  have "(\<forall>k<Suc N. \<not> f (p + k)) \<longleftrightarrow> \<not> f p \<and> (\<forall>k<N. \<not> f (Suc p + k))"
  proof
    assume a: "\<forall>k<Suc N. \<not> f (p + k)"
    then have "\<not> f (p + 0)" by blast
    moreover have "\<forall>k<N. \<not> f (Suc p + k)"
    proof (intro allI impI)
      fix k assume "k < N"
      then have "Suc k < Suc N" by simp
      with a have "\<not> f (p + Suc k)" by blast
      then show "\<not> f (Suc p + k)" by simp
    qed
    ultimately show "\<not> f p \<and> (\<forall>k<N. \<not> f (Suc p + k))" by simp
  next
    assume a: "\<not> f p \<and> (\<forall>k<N. \<not> f (Suc p + k))"
    show "\<forall>k<Suc N. \<not> f (p + k)"
    proof (intro allI impI)
      fix k assume k: "k < Suc N"
      show "\<not> f (p + k)"
      proof (cases k)
        case 0
        with a show ?thesis by simp
      next
        case (Suc j)
        with k a have "\<not> f (Suc p + j)" by simp
        with Suc show ?thesis by simp
      qed
    qed
  qed
  with Suc.IH[of "Suc p"] show ?case by auto
qed

lemma main_loop_effect:
  "first_stop (stop_polls w) (poll_pos w) N \<Longrightarrow> list_all good emus \<Longrightarrow>
     \<exists>out emus' w' cs. main_loop i emus w = Some (out, emus', w') \<and>
        run_ok w (concat (replicate N (concat (map round_shapes emus)))) cs out w' \<and>
        map ident emus' = map ident emus"
proof (induction N arbitrary: w emus)
  case 0
  let ?w1 = "w\<lparr>poll_pos := poll_pos w + 1\<rparr>"
  from 0(1) have "stop_polls w (poll_pos w)" by simp
  then have "main_loop i emus w = Some (Done, emus, ?w1)"
    by (subst main_loop.simps) (simp add: stop_flag_def)
  moreover have "run_ok w [] [] Done ?w1"
    by (simp add: run_ok_def runs_def calls_ok_Nil)
  ultimately show ?case by auto
next
  case (Suc N)
  let ?w1 = "w\<lparr>poll_pos := poll_pos w + 1\<rparr>"
  let ?S = "concat (map round_shapes emus)"
  from Suc.prems(1) have ns: "\<not> stop_polls w (poll_pos w)"
    and fs: "first_stop (stop_polls w) (Suc (poll_pos w)) N"
    by (simp_all split: if_splits)
  obtain o1 emus1 w2 where lb: "loop_body i emus ?w1 = (o1, emus1, w2)" by (metis prod_cases3)
  from loop_body_effect[OF lb Suc.prems(2)] obtain cs1 where
    cs1: "run_ok ?w1 ?S cs1 o1 w2" "map ident emus1 = map ident emus" "list_all good emus1"
      "poll_pos w2 = poll_pos ?w1"
    by blast
  have pre: "runs w [] ?w1" by (simp add: runs_def)
  note r1 = run_ok_pre[OF pre cs1(1)]
  have unf: "main_loop i emus w =
      (case loop_body i emus ?w1 of
         (Raised e, emus1, w2) \<Rightarrow> Some (Raised e, emus1, w2)
       | (Done, emus1, w2) \<Rightarrow> main_loop i emus1 w2)"
    using ns by (subst main_loop.simps) (simp add: stop_flag_def)
  show ?case
  proof (cases o1)
    case (Raised e)
    with unf lb have m: "main_loop i emus w = Some (Raised e, emus1, w2)" by simp
    from run_ok_stop[OF r1[unfolded Raised], of "concat (replicate N ?S)"]
    have "run_ok w (concat (replicate (Suc N) ?S)) cs1 (Raised e) w2" by simp
    with m cs1(2) show ?thesis by auto
  next
    case Done
    with unf lb have m: "main_loop i emus w = main_loop i emus1 w2" by simp
    from cs1(1) have sp: "stop_polls w2 = stop_polls ?w1" by (simp add: run_ok_def runs_def)
    have fs2: "first_stop (stop_polls w2) (poll_pos w2) N"
      using fs sp cs1(4) by simp
    from Suc.IH[OF fs2 cs1(3)] obtain out emus' w' cs where
      ih: "main_loop i emus1 w2 = Some (out, emus', w')"
        "run_ok w2 (concat (replicate N (concat (map round_shapes emus1)))) cs out w'"
        "map ident emus' = map ident emus1"
      by blast
    have rs: "map round_shapes emus1 = map round_shapes emus"
    proof (rule nth_equalityI)
      show "length (map round_shapes emus1) = length (map round_shapes emus)"
        using arg_cong[OF cs1(2), of length] by simp
    next
      fix k assume "k < length (map round_shapes emus1)"
      then have k: "k < length emus1" "k < length emus"
        using arg_cong[OF cs1(2), of length] by simp_all
      from cs1(2) have "map ident emus1 ! k = map ident emus ! k" by simp
      with k have "ident (emus1 ! k) = ident (emus ! k)" by simp
      from ident_topics(5)[OF this] k
      show "map round_shapes emus1 ! k = map round_shapes emus ! k" by simp
    qed
    from run_ok_then[OF r1[unfolded Done] ih(2)[unfolded rs]]
    have "run_ok w (concat (replicate (Suc N) ?S)) (cs1 @ cs) out w'" by simp
    with m ih(1,3) cs1(2) show ?thesis by auto
  qed
qed

lemma DeviceEmulator_init_effect:
  assumes "DeviceEmulator_init s r d i q chs w = (emu, w')"
  shows "ident emu = (s, r, d, q, chs)" and "good emu" and "pubs w [] w'"
proof -
  let ?w2 = "w\<lparr>rand_pos := rand_pos w + 2\<rparr>"
  from assms show id: "ident emu = (s, r, d, q, chs)"
    by (auto simp: DeviceEmulator_init_def ident_def split: prod.splits)
  from assms have dw: "dp_walk emu = fst (init_dp_walk chs Map.empty ?w2)"
    using DeviceEmulator_init_dp_walk[of s r d i q chs w] by simp
  have "\<forall>ch\<in>set chs. dp_walk emu ch \<noteq> None"
  proof
    fix ch assume "ch \<in> set chs"
    from init_dp_walk_seed[OF this, of Map.empty ?w2] show "dp_walk emu ch \<noteq> None"
      unfolding dw by auto
  qed
  with id show "good emu"
    by (simp add: good_def ident_def list_all_iff)
  from assms have "w' = snd (init_dp_walk chs Map.empty ?w2)"
    by (auto simp: DeviceEmulator_init_def random_uniform_def random_random_def split: prod.splits)
  then show "pubs w [] w'"
    by (simp add: init_dp_walk_world pubs_def)
qed

lemma make_emus_effect:
  "make_emus a devs w = (emus, w') \<Longrightarrow>
     map ident emus = map (\<lambda>d. (arg_site a, arg_room a, d, arg_qos a, arg_dp_channels a)) devs \<and>
     list_all good emus \<and> pubs w [] w'"
proof (induction devs arbitrary: w emus w')
  case Nil
  then show ?case by (simp add: pubs_refl)
next
  case (Cons dev devs)
  obtain emu w1 where i: "DeviceEmulator_init (arg_site a) (arg_room a) dev (arg_interval a)
      (arg_qos a) (arg_dp_channels a) w = (emu, w1)" by (metis prod.exhaust)
  obtain es w2 where m: "make_emus a devs w1 = (es, w2)" by (metis prod.exhaust)
  from Cons.prems i m have res: "emus = emu # es" "w' = w2" by simp_all
  note e = DeviceEmulator_init_effect[OF i]
  from Cons.IH[OF m] e res pubs_trans[of w "[]" w1 "[]" w2] show ?case by simp
qed

lemma ident_shapes:
  assumes "ident emu = (arg_site a, arg_room a, d, q, arg_dp_channels a)"
  shows "status_shape emu online = (device_topic a d ''/status'', True, Some (JBool online))"
    and "round_shapes emu = device_round a d"
  using assms
  by (simp_all add: ident_def status_shape_def round_shapes_def device_round_def device_topic_def
      topic_status_def topic_bme_def topic_sps_def topic_dp_def base_def)

lemma emus_shapes:
  assumes "map ident emus = map (\<lambda>d. (arg_site a, arg_room a, d, arg_qos a, arg_dp_channels a)) (arg_devices a)"
  shows "map (\<lambda>e. status_shape e online) emus = expected_status a online"
    and "concat (map round_shapes emus) = expected_round a"
proof -
  have len: "length emus = length (arg_devices a)"
    using arg_cong[OF assms, of length] by simp
  have k: "ident (emus ! k) = (arg_site a, arg_room a, arg_devices a ! k, arg_qos a, arg_dp_channels a)"
    if "k < length emus" for k
  proof -
    from assms have "map ident emus ! k =
      map (\<lambda>d. (arg_site a, arg_room a, d, arg_qos a, arg_dp_channels a)) (arg_devices a) ! k"
      by simp
    with that len show ?thesis by simp
  qed
  show "map (\<lambda>e. status_shape e online) emus = expected_status a online"
    unfolding expected_status_def
    by (rule nth_equalityI) (simp_all add: len ident_shapes(1)[OF k])
  have "map round_shapes emus = map (device_round a) (arg_devices a)"
    by (rule nth_equalityI) (simp_all add: len ident_shapes(2)[OF k])
  then show "concat (map round_shapes emus) = expected_round a"
    by (simp only: expected_round_def)
qed

lemma main_trace:
  assumes fs: "first_stop (stop_polls w) (poll_pos w) N"
    and on: "\<not> fails (publish_raises w) (publish_pos w) (length (arg_devices a))"
  shows "\<exists>out w'. main a w = Some (out, w') \<and>
     map shape (publishes (trace w')) =
       map shape (publishes (trace w)) @ expected_status a True @
       take (attempts (publish_raises w) (publish_pos w + length (arg_devices a))
               (length (concat (replicate N (expected_round a)))))
            (concat (replicate N (expected_round a))) @
       take (attempts (publish_raises w)
               (publish_pos w + length (arg_devices a) +
                attempts (publish_raises w) (publish_pos w + length (arg_devices a))
                  (length (concat (replicate N (expected_round a)))))
               (length (arg_devices a)))
            (expected_status a False) \<and>
     out = (if fails (publish_raises w) (publish_pos w + length (arg_devices a))
                 (length (concat (replicate N (expected_round a)))) \<or>
               fails (publish_raises w)
                 (publish_pos w + length (arg_devices a) +
                  attempts (publish_raises w) (publish_pos w + length (arg_devices a))
                    (length (concat (replicate N (expected_round a)))))
                 (length (arg_devices a))
            then Raised PublishError else Done)"
proof -
  let ?R = "publish_raises w" and ?p = "publish_pos w" and ?d = "length (arg_devices a)"
  let ?Son = "expected_status a True" and ?Soff = "expected_status a False"
  let ?Sr = "concat (replicate N (expected_round a))"
  obtain emus w1 where me: "make_emus a (arg_devices a) w = (emus, w1)" by (metis prod.exhaust)
  from make_emus_effect[OF me] have
    id: "map ident emus = map (\<lambda>d. (arg_site a, arg_room a, d, arg_qos a, arg_dp_channels a)) (arg_devices a)"
    and g: "list_all good emus" and p1: "pubs w [] w1"
    by simp_all
  have ld: "length ?Son = ?d" "length ?Soff = ?d" by (simp_all add: expected_status_def)
  obtain o1 w2 where on1: "publish_status_all emus True w1 = (o1, w2)" by (metis prod.exhaust)
  from publish_status_all_pubs[OF on1] obtain c1 where
    c1: "pubs w1 c1 w2" "calls_ok (publish_raises w1) (publish_pos w1) (map (\<lambda>e. status_shape e True) emus) c1 o1"
    by blast
  have e1: "publish_raises w1 = ?R" "publish_pos w1 = ?p" "stop_polls w1 = stop_polls w"
    "poll_pos w1 = poll_pos w" "trace w1 = trace w"
    using p1 by (simp_all add: pubs_def)
  from c1(2) have k1: "calls_ok ?R ?p ?Son c1 o1"
    unfolding e1 emus_shapes(1)[OF id] .
  with on ld have o1: "o1 = Done" and l1: "length c1 = ?d" and s1: "map shape c1 = ?Son"
    by (simp_all add: calls_ok_def attempts_no_fail)
  have e2: "publish_raises w2 = ?R" "publish_pos w2 = ?p + ?d" "stop_polls w2 = stop_polls w"
    "poll_pos w2 = poll_pos w" "trace w2 = trace w @ map Publish c1"
    using c1(1) e1 l1 by (simp_all add: pubs_def)
  have fs2: "first_stop (stop_polls w2) (poll_pos w2) N" using fs e2 by simp
  from main_loop_effect[OF fs2 g, of "arg_interval a"] obtain o2 emus2 w3 c2 where
    ml: "main_loop (arg_interval a) emus w2 = Some (o2, emus2, w3)"
    and r2: "run_ok w2 (concat (replicate N (concat (map round_shapes emus)))) c2 o2 w3"
    and id2: "map ident emus2 = map ident emus"
    by blast
  from r2 have k2: "calls_ok ?R (?p + ?d) ?Sr c2 o2" and ru: "runs w2 c2 w3"
    unfolding run_ok_def e2 emus_shapes(2)[OF id] by simp_all
  have e3: "publish_raises w3 = ?R" "publish_pos w3 = ?p + ?d + length c2"
    "publishes (trace w3) = publishes (trace w) @ c1 @ c2"
    using ru e2 by (simp_all add: runs_def)
  from k2 have l2: "length c2 = attempts ?R (?p + ?d) (length ?Sr)"
    and s2: "map shape c2 = take (length c2) ?Sr"
    and o2: "o2 = (if fails ?R (?p + ?d) (length ?Sr) then Raised PublishError else Done)"
    by (simp_all add: calls_ok_def)
  obtain o3 w4 where off: "publish_status_all emus2 False w3 = (o3, w4)" by (metis prod.exhaust)
  from publish_status_all_pubs[OF off] obtain c3 where
    c3: "pubs w3 c3 w4" "calls_ok (publish_raises w3) (publish_pos w3) (map (\<lambda>e. status_shape e False) emus2) c3 o3"
    by blast
  from c3(2) have k3: "calls_ok ?R (?p + ?d + length c2) ?Soff c3 o3"
    unfolding e3 emus_shapes(1)[OF id2[unfolded id]] .
  then have l3: "length c3 = attempts ?R (?p + ?d + length c2) ?d"
    and s3: "map shape c3 = take (length c3) ?Soff"
    and o3: "o3 = (if fails ?R (?p + ?d + length c2) ?d then Raised PublishError else Done)"
    using ld by (simp_all add: calls_ok_def)
  have t4: "publishes (trace w4) = publishes (trace w) @ c1 @ c2 @ c3"
    using c3(1) e3 by (simp add: pubs_def)
  let ?w5 = "w4\<lparr>trace := trace w4 @ [LoopStop, Disconnect]\<rparr>"
  have t5: "publishes (trace ?w5) = publishes (trace w) @ c1 @ c2 @ c3"
    using t4 by simp
  have sh: "map shape (publishes (trace w) @ c1 @ c2 @ c3) =
      map shape (publishes (trace w)) @ ?Son @ take (length c2) ?Sr @ take (length c3) ?Soff"
    using s1 s2 s3 by simp
  show ?thesis
  proof (cases o3)
    case (Raised e)
    with o3 have f3: "fails ?R (?p + ?d + length c2) ?d" and e: "o3 = Raised PublishError"
      by (simp_all split: if_splits)
    from me on1 o1 ml off e have "main a w = Some (Raised PublishError, w4)"
      by (simp add: main_def)
    with t4 sh f3 l2 l3 show ?thesis by simp
  next
    case Done
    with o3 have f3: "\<not> fails ?R (?p + ?d + length c2) ?d"
      by (simp split: if_splits)
    from me on1 o1 ml off Done have "main a w = Some (o2, ?w5)"
      by (simp add: main_def)
    with t5 sh f3 l2 l3 o2 show ?thesis by simp
  qed
qed

section \<open>One tick of one device\<close>

lemma calls_ok_Done:
  assumes "calls_ok R p S cs Done"
  shows "map shape cs = S"
proof -
  from assms have nf: "\<not> fails R p (length S)"
    by (auto simp: calls_ok_def split: if_splits)
  with assms show ?thesis
    by (simp add: calls_ok_def attempts_no_fail)
qed

lemma fails_never: "(\<And>n. \<not> R n) \<Longrightarrow> \<not> fails R p m"
  by (simp add: fails_iff)

lemma map_topic_shape: "map topic cs = map fst (map shape cs)"
  by (simp add: shape_def)

lemma map_retain_shape: "map retain cs = map (fst \<circ> snd) (map shape cs)"
  by (simp add: shape_def)

lemma example_good: "good (example_emu ds)"
  using DeviceEmulator_init_effect(2)[of "''s''" "''r''" "''d1''" 5 0 "[1]" "example_world ds"
      "example_emu ds" "example_start ds"]
  by (simp add: example_emu_def example_start_def)

lemma example_topics:
  "topic_bme (example_emu ds) = ''iot/s/r/d1/telemetry/bme688''"
  "topic_sps (example_emu ds) = ''iot/s/r/d1/telemetry/sps30''"
  "map (topic_dp (example_emu ds)) (dp_channels (example_emu ds)) = [''iot/s/r/d1/telemetry/dp/1'']"
  by (simp_all add: example_emu_eq topic_bme_def topic_sps_def topic_dp_def base_def str_int_def
      str_nat.simps)

lemma example_start_env:
  "trace (example_start ds) = []" "wall_clock (example_start ds) (wall_pos (example_start ds)) = ''T0''"
  "publish_raises (example_start ds) = (\<lambda>n. False)" "mono_pos (example_start ds) = 0"
  "mono_clock (example_start ds) = real" "poll_pos (example_start ds) = 0"
  "stop_polls (example_start ds) = (\<lambda>n. False)" "publish_pos (example_start ds) = 0"
  "wall_pos (example_start ds) = 0"
  by (simp_all add: example_start_eq str_nat.simps)

lemma example_publish_once_done:
  "fst (publish_once (example_emu ds) (example_start ds)) = Done"
proof -
  obtain out emu' w' where po: "publish_once (example_emu ds) (example_start ds) = (out, emu', w')"
    by (metis prod_cases3)
  from publish_once_pubs[OF po example_good] obtain cs where
    "step_ok (example_start ds) (round_shapes (example_emu ds)) cs out w'" by blast
  then have "out = (if fails (\<lambda>n. False) 0 (length (round_shapes (example_emu ds)))
      then Raised PublishError else Done)"
    by (simp add: step_ok_def calls_ok_def example_start_env)
  then show ?thesis
    using fails_never[of "\<lambda>n. False"] po by simp
qed

text \<open>
  Claim C7. A tick of a device whose channels all have a walk (as every emulator that
  \<^verbatim>\<open>main\<close> builds has) reads the wall clock once, at its start, and every publish call of
  the tick carries this one reading under the key \<open>ts\<close>: the calls are, in order, the
  environmental, the particulate and one differential-pressure call per channel, cut after
  the first call that raises, and all of them when the tick ends normally.
\<close>

theorem publish_once_one_timestamp:
  assumes "good emu"
  shows "\<exists>cs. trace (snd (snd (publish_once emu w))) = trace w @ map Publish cs \<and>
           list_all (has_ts (wall_clock w (wall_pos w))) cs \<and>
           wall_pos (snd (snd (publish_once emu w))) = wall_pos w + 1 \<and>
           wall_clock (snd (snd (publish_once emu w))) = wall_clock w \<and>
           length cs = attempts (publish_raises w) (publish_pos w) (2 + length (dp_channels emu)) \<and>
           map topic cs = take (length cs)
             (topic_bme emu # topic_sps emu # map (topic_dp emu) (dp_channels emu)) \<and>
           (fst (publish_once emu w) = Done \<longrightarrow>
              map topic cs = topic_bme emu # topic_sps emu # map (topic_dp emu) (dp_channels emu)) \<and>
           good (fst (snd (publish_once emu w)))"
proof -
  obtain out emu' w' where po: "publish_once emu w = (out, emu', w')" by (metis prod_cases3)
  from publish_once_pubs[OF po assms] obtain cs where
    cs: "step_ok w (round_shapes emu) cs out w'" "ident emu' = ident emu"
      "\<forall>c. dp_walk emu' c \<noteq> None \<longleftrightarrow> dp_walk emu c \<noteq> None"
      "list_all (has_ts (wall_clock w (wall_pos w))) cs" "wall_pos w' = wall_pos w + 1"
    by blast
  from cs(1) have p: "pubs w cs w'" and c: "calls_ok (publish_raises w) (publish_pos w) (round_shapes emu) cs out"
    by (simp_all add: step_ok_def)
  have fs: "map fst (round_shapes emu) = topic_bme emu # topic_sps emu # map (topic_dp emu) (dp_channels emu)"
    by (simp add: round_shapes_def comp_def)
  have len: "length (round_shapes emu) = 2 + length (dp_channels emu)"
    by (simp add: round_shapes_def)
  from c have l: "length cs = attempts (publish_raises w) (publish_pos w) (2 + length (dp_channels emu))"
    and sh: "map shape cs = take (length cs) (round_shapes emu)"
    by (simp_all add: calls_ok_def len)
  have tk: "map topic cs = take (length cs)
             (topic_bme emu # topic_sps emu # map (topic_dp emu) (dp_channels emu))"
    unfolding map_topic_shape sh fs[symmetric] by (simp add: take_map)
  have d: "out = Done \<longrightarrow>
      map topic cs = topic_bme emu # topic_sps emu # map (topic_dp emu) (dp_channels emu)"
  proof
    assume "out = Done"
    with c have "map shape cs = round_shapes emu" by (simp add: calls_ok_Done)
    then show "map topic cs = topic_bme emu # topic_sps emu # map (topic_dp emu) (dp_channels emu)"
      unfolding map_topic_shape using fs by simp
  qed
  have g: "good emu'"
    using good_ident[OF cs(2)] cs(3) assms by blast
  from p have "trace w' = trace w @ map Publish cs" "wall_clock w' = wall_clock w"
    by (simp_all add: pubs_def)
  with cs(4,5) l tk d g show ?thesis
    unfolding po by (intro exI[of _ cs]) simp
qed

theorem publish_once_one_timestamp_witness:
  "good (example_emu draws_calm) \<and>
   fst (publish_once (example_emu draws_calm) (example_start draws_calm)) = Done \<and>
   (\<exists>cs. trace (snd (snd (publish_once (example_emu draws_calm) (example_start draws_calm)))) =
            map Publish cs \<and>
          list_all (has_ts ''T0'') cs \<and>
          map topic cs = [''iot/s/r/d1/telemetry/bme688'', ''iot/s/r/d1/telemetry/sps30'',
                          ''iot/s/r/d1/telemetry/dp/1'']) \<and>
   wall_pos (snd (snd (publish_once (example_emu draws_calm) (example_start draws_calm)))) = 1"
proof -
  let ?E = "example_emu draws_calm" and ?W = "example_start draws_calm"
  from publish_once_one_timestamp[OF example_good, of draws_calm ?W] obtain cs where
    cs: "trace (snd (snd (publish_once ?E ?W))) = trace ?W @ map Publish cs"
      "list_all (has_ts (wall_clock ?W (wall_pos ?W))) cs"
      "wall_pos (snd (snd (publish_once ?E ?W))) = wall_pos ?W + 1"
      "fst (publish_once ?E ?W) = Done \<longrightarrow>
         map topic cs = topic_bme ?E # topic_sps ?E # map (topic_dp ?E) (dp_channels ?E)"
    by (elim exE conjE) (rule that)
  note d = example_publish_once_done[of draws_calm]
  from cs(1) have a: "trace (snd (snd (publish_once ?E ?W))) = map Publish cs"
    by (simp add: example_start_env(1))
  from cs(2) have b: "list_all (has_ts ''T0'') cs"
    by (simp only: example_start_env(2))
  from cs(4) d have c: "map topic cs = [''iot/s/r/d1/telemetry/bme688'',
      ''iot/s/r/d1/telemetry/sps30'', ''iot/s/r/d1/telemetry/dp/1'']"
    by (simp add: example_topics)
  from cs(3) have e: "wall_pos (snd (snd (publish_once ?E ?W))) = 1"
    by (simp add: example_start_env)
  have "\<exists>cs. trace (snd (snd (publish_once ?E ?W))) = map Publish cs \<and>
          list_all (has_ts ''T0'') cs \<and>
          map topic cs = [''iot/s/r/d1/telemetry/bme688'', ''iot/s/r/d1/telemetry/sps30'',
                          ''iot/s/r/d1/telemetry/dp/1'']"
    by (rule exI[of _ cs]) (simp only: a b c simp_thms)
  with example_good[of draws_calm] d e show ?thesis
    by (simp only: simp_thms)
qed

section \<open>The sleep between rounds\<close>

lemma example_loop_body_done:
  "fst (loop_body i [example_emu ds] (snd (stop_flag (example_start ds)))) = Done"
proof -
  let ?w1 = "snd (stop_flag (example_start ds))"
  obtain out emus' w' where lb: "loop_body i [example_emu ds] ?w1 = (out, emus', w')"
    by (metis prod_cases3)
  have g: "list_all good [example_emu ds]" by (simp add: example_good)
  from loop_body_effect[OF lb g] obtain cs where
    "run_ok ?w1 (concat (map round_shapes [example_emu ds])) cs out w'" by blast
  then have "out = (if fails (publish_raises ?w1) (publish_pos ?w1)
      (length (concat (map round_shapes [example_emu ds]))) then Raised PublishError else Done)"
    by (simp add: run_ok_def calls_ok_def)
  moreover have "publish_raises ?w1 = (\<lambda>n. False)"
    by (simp add: stop_flag_def example_start_env)
  ultimately show ?thesis
    using fails_never[of "\<lambda>n. False"] lb by simp
qed

text \<open>
  Claim C9. In an iteration of the loop whose round ends normally, \<open>start\<close> and \<open>now\<close> are the
  two readings of \<^verbatim>\<open>time.time()\<close> around the round and \<open>s = interval - (now - start)\<close>. The
  iteration publishes one round and then sleeps once for \<open>s\<close> when \<open>0 < s\<close>, and not at all
  otherwise: the time slept is \<open>max 0 s\<close>. The loop goes on from the state after the sleep
  with the next poll of the flag: whatever the readings were, the iteration is one round.
\<close>

theorem loop_body_sleep:
  assumes "list_all good emus" and "\<not> stop_polls w (poll_pos w)"
    and "fst (loop_body i emus (snd (stop_flag w))) = Done"
  shows "let start = mono_clock w (mono_pos w);
             now = mono_clock w (mono_pos w + 1);
             s = i - (now - start);
             emus' = fst (snd (loop_body i emus (snd (stop_flag w))));
             w' = snd (snd (loop_body i emus (snd (stop_flag w))))
         in (\<exists>cs. trace w' = trace w @ map Publish cs @ (if 0 < s then [Sleep s] else []) \<and>
                  map shape cs = concat (map round_shapes emus)) \<and>
            sleeps (trace w') = sleeps (trace w) @ (if 0 < s then [s] else []) \<and>
            sum_list (sleeps (trace w')) = sum_list (sleeps (trace w)) + max 0 s \<and>
            mono_pos w' = mono_pos w + 2 \<and> poll_pos w' = poll_pos w + 1 \<and>
            main_loop i emus w = main_loop i emus' w'"
proof -
  let ?w1 = "w\<lparr>poll_pos := poll_pos w + 1\<rparr>"
  have sf: "stop_flag w = (stop_polls w (poll_pos w), ?w1)" by (simp add: stop_flag_def)
  obtain out emus' w' where lb: "loop_body i emus ?w1 = (out, emus', w')" by (metis prod_cases3)
  with assms(3) sf have out: "out = Done" by simp
  let ?s = "i - (mono_clock w (mono_pos w + 1) - mono_clock w (mono_pos w))"
  from loop_body_effect[OF lb assms(1)] out obtain cs where
    cs: "run_ok ?w1 (concat (map round_shapes emus)) cs out w'" "poll_pos w' = poll_pos ?w1"
      "mono_pos w' = mono_pos ?w1 + 2"
      "trace w' = trace ?w1 @ map Publish cs @ (if 0 < ?s then [Sleep ?s] else [])"
    by auto
  from cs(1) out have "calls_ok (publish_raises ?w1) (publish_pos ?w1)
      (concat (map round_shapes emus)) cs Done"
    by (simp add: run_ok_def)
  then have sh: "map shape cs = concat (map round_shapes emus)"
    by (rule calls_ok_Done)
  have tr: "trace w' = trace w @ map Publish cs @ (if 0 < ?s then [Sleep ?s] else [])"
    using cs(4) by simp
  have sl: "sleeps (trace w') = sleeps (trace w) @ (if 0 < ?s then [?s] else [])"
    unfolding tr by simp
  have sm: "sum_list (sleeps (trace w')) = sum_list (sleeps (trace w)) + max 0 ?s"
    unfolding sl by simp
  have ml: "main_loop i emus w = main_loop i emus' w'"
    using assms(2) lb out by (subst main_loop.simps) (simp add: sf)
  have ex: "\<exists>cs. trace w' = trace w @ map Publish cs @ (if 0 < ?s then [Sleep ?s] else []) \<and>
                  map shape cs = concat (map round_shapes emus)"
    using tr sh by blast
  show ?thesis
    unfolding Let_def sf snd_conv lb fst_conv
    using ex sl sm cs(2,3) ml by simp
qed

theorem loop_body_sleep_witness:
  "list_all good [example_emu draws_calm] \<and>
   \<not> stop_polls (example_start draws_calm) (poll_pos (example_start draws_calm)) \<and>
   fst (loop_body 5 [example_emu draws_calm] (snd (stop_flag (example_start draws_calm)))) = Done \<and>
   fst (loop_body 1 [example_emu draws_calm] (snd (stop_flag (example_start draws_calm)))) = Done \<and>
   mono_clock (example_start draws_calm) 0 = 0 \<and> mono_clock (example_start draws_calm) 1 = 1 \<and>
   sleeps (trace (snd (snd (loop_body 5 [example_emu draws_calm]
       (snd (stop_flag (example_start draws_calm))))))) = [4] \<and>
   sleeps (trace (snd (snd (loop_body 1 [example_emu draws_calm]
       (snd (stop_flag (example_start draws_calm))))))) = []"
proof -
  let ?E = "[example_emu draws_calm]" and ?W = "example_start draws_calm"
  have g: "list_all good ?E" by (simp add: example_good)
  have ns: "\<not> stop_polls ?W (poll_pos ?W)" by (simp add: example_start_env)
  note d5 = example_loop_body_done[of 5 draws_calm]
  note d1 = example_loop_body_done[of 1 draws_calm]
  have c: "mono_clock ?W 0 = 0" "mono_clock ?W 1 = 1" by (simp_all add: example_start_env)
  from loop_body_sleep[OF g ns d5]
  have s5: "sleeps (trace (snd (snd (loop_body 5 ?E (snd (stop_flag ?W)))))) = [4]"
    by (simp add: Let_def example_start_env)
  from loop_body_sleep[OF g ns d1]
  have s1: "sleeps (trace (snd (snd (loop_body 1 ?E (snd (stop_flag ?W)))))) = []"
    by (simp add: Let_def example_start_env)
  from g ns d5 d1 c s5 s1 show ?thesis by (simp only: simp_thms)
qed

section \<open>Startup, rounds and shutdown\<close>

lemma attempts_first:
  "i < m \<Longrightarrow> R (p + i) \<Longrightarrow> \<forall>j<i. \<not> R (p + j) \<Longrightarrow> attempts R p m = Suc i"
proof (induction m arbitrary: p i)
  case 0
  then show ?case by simp
next
  case (Suc m)
  show ?case
  proof (cases i)
    case 0
    with Suc.prems show ?thesis by simp
  next
    case (Suc k)
    with Suc.prems(3) have np: "\<not> R p" by force
    have a: "k < m" using Suc.prems(1) Suc by simp
    have b: "R (Suc p + k)" using Suc.prems(2) Suc by simp
    have c: "\<forall>j<k. \<not> R (Suc p + j)"
    proof (intro allI impI)
      fix j assume "j < k"
      then have "Suc j < i" using Suc by simp
      with Suc.prems(3) have "\<not> R (p + Suc j)" by blast
      then show "\<not> R (Suc p + j)" by simp
    qed
    from Suc.IH[OF a b c] np Suc show ?thesis by simp
  qed
qed

lemma length_concat_replicate: "length (concat (replicate N xs)) = N * length xs"
  by (induction N) simp_all

lemma example_expected:
  "expected_status example_args True =
     [(''iot/s/r/d1/status'', True, Some (JBool True)), (''iot/s/r/d2/status'', True, Some (JBool True))]"
  "expected_status example_args False =
     [(''iot/s/r/d1/status'', True, Some (JBool False)), (''iot/s/r/d2/status'', True, Some (JBool False))]"
  "expected_round example_args =
     [(''iot/s/r/d1/telemetry/bme688'', False, None), (''iot/s/r/d1/telemetry/sps30'', False, None),
      (''iot/s/r/d1/telemetry/dp/1'', False, None),
      (''iot/s/r/d2/telemetry/bme688'', False, None), (''iot/s/r/d2/telemetry/sps30'', False, None),
      (''iot/s/r/d2/telemetry/dp/1'', False, None)]"
  "length (arg_devices example_args) = 2"
  by (simp_all add: expected_status_def expected_round_def device_round_def device_topic_def
      example_args_def str_int_def str_nat.simps)

lemma run_world_env:
  "stop_polls (run_world N R) = stop_at N" "poll_pos (run_world N R) = 0"
  "publish_raises (run_world N R) = R" "publish_pos (run_world N R) = 0"
  "trace (run_world N R) = []"
  by (simp_all add: run_world_def initial_world_def)

lemma example_stops:
  "first_stop (stop_at 0) 0 0" "first_stop (stop_at 1) 0 1" "first_stop (stop_at 2) 0 2"
  by (simp_all add: stop_at_def eval_nat_numeral)

lemma example_lengths:
  "length (arg_devices example_args) = 2" "length (expected_round example_args) = 6"
  by (simp_all add: expected_round_def device_round_def example_args_def)

lemma fails_raises_never: "\<not> fails raises_never p m"
  by (simp add: fails_iff raises_never_def)

lemma attempts_raises_never: "attempts raises_never p m = m"
  by (simp add: attempts_no_fail fails_raises_never)

lemma fails_raises_at: "fails (raises_at k) p m \<longleftrightarrow> p \<le> k \<and> k < p + m"
proof
  assume "fails (raises_at k) p m"
  then obtain i where "i < m" "p + i = k" by (auto simp: fails_iff raises_at_def)
  then show "p \<le> k \<and> k < p + m" by linarith
next
  assume a: "p \<le> k \<and> k < p + m"
  then have "k - p < m" by linarith
  moreover from a have "raises_at k (p + (k - p))" by (simp add: raises_at_def)
  ultimately show "fails (raises_at k) p m" unfolding fails_iff by blast
qed

lemma attempts_raises_at:
  "attempts (raises_at k) p m = (if p \<le> k \<and> k < p + m then Suc (k - p) else m)"
proof (cases "p \<le> k \<and> k < p + m")
  case True
  then have a: "k - p < m" by linarith
  from True have b: "raises_at k (p + (k - p))" by (simp add: raises_at_def)
  have c: "\<forall>j<k - p. \<not> raises_at k (p + j)"
  proof (intro allI impI)
    fix j assume "j < k - p"
    then have "p + j \<noteq> k" by linarith
    then show "\<not> raises_at k (p + j)" by (simp add: raises_at_def)
  qed
  from attempts_first[OF a b c] True show ?thesis by simp
next
  case False
  then have "\<not> fails (raises_at k) p m" by (simp only: fails_raises_at not_False_eq_True)
  then have "attempts (raises_at k) p m = m" by (rule attempts_no_fail)
  with False show ?thesis by (simp only: if_False)
qed

lemmas example_raises = fails_raises_never attempts_raises_never fails_raises_at attempts_raises_at

text \<open>
  Claim C3, as the code has it. When the online announcements succeed and the stop flag is
  seen at the \<open>N\<close>-th poll, \<^verbatim>\<open>main\<close> returns, and after the calls of startup and of the
  rounds the trace holds the offline status calls of the first \<open>j\<close> devices, in order: all
  devices when no offline call raises, and the devices up to and including the first one
  whose offline call raises otherwise. The exception leaves the \<^verbatim>\<open>for\<close> loop of the
  \<^verbatim>\<open>finally\<close> block, so no offline call is attempted for the devices after it.
\<close>

theorem main_offline_until_raise:
  assumes "first_stop (stop_polls w) (poll_pos w) N"
    and "\<not> fails (publish_raises w) (publish_pos w) (length (arg_devices a))"
  shows "let R = publish_raises w;
             d = length (arg_devices a);
             k = attempts R (publish_pos w + d) (N * length (expected_round a));
             q = publish_pos w + d + k;
             j = attempts R q d
         in (\<exists>out w'. main a w = Some (out, w') \<and>
               map shape (publishes (trace w')) =
                 map shape (publishes (trace w)) @ expected_status a True @
                 take k (concat (replicate N (expected_round a))) @
                 take j (expected_status a False) \<and>
               (fails R q d \<longrightarrow> out = Raised PublishError)) \<and>
            (\<not> fails R q d \<longrightarrow> j = d) \<and>
            (\<forall>i<d. R (q + i) \<and> (\<forall>m<i. \<not> R (q + m)) \<longrightarrow> j = Suc i)"
proof -
  let ?R = "publish_raises w" and ?d = "length (arg_devices a)"
  let ?k = "attempts ?R (publish_pos w + ?d) (N * length (expected_round a))"
  let ?q = "publish_pos w + ?d + ?k"
  from main_trace[OF assms, unfolded length_concat_replicate]
  have a: "\<exists>out w'. main a w = Some (out, w') \<and>
               map shape (publishes (trace w')) =
                 map shape (publishes (trace w)) @ expected_status a True @
                 take ?k (concat (replicate N (expected_round a))) @
                 take (attempts ?R ?q ?d) (expected_status a False) \<and>
               (fails ?R ?q ?d \<longrightarrow> out = Raised PublishError)"
    by (elim exE conjE) (intro exI conjI, assumption, assumption, simp)
  have b: "\<not> fails ?R ?q ?d \<longrightarrow> attempts ?R ?q ?d = ?d"
    by (simp add: attempts_no_fail)
  have c: "\<forall>i<?d. ?R (?q + i) \<and> (\<forall>m<i. \<not> ?R (?q + m)) \<longrightarrow> attempts ?R ?q ?d = Suc i"
    using attempts_first[of _ ?d ?R ?q] by blast
  show ?thesis
    unfolding Let_def using a b c by (intro conjI)
qed

theorem main_offline_until_raise_witness:
  "first_stop (stop_polls (run_world 0 (raises_at 2))) (poll_pos (run_world 0 (raises_at 2))) 0 \<and>
   \<not> fails (publish_raises (run_world 0 (raises_at 2))) (publish_pos (run_world 0 (raises_at 2)))
       (length (arg_devices example_args)) \<and>
   raises_at 2 2 \<and>
   (\<exists>out w'. main example_args (run_world 0 (raises_at 2)) = Some (out, w') \<and>
      out = Raised PublishError \<and>
      map shape (publishes (trace w')) =
        [(''iot/s/r/d1/status'', True, Some (JBool True)),
         (''iot/s/r/d2/status'', True, Some (JBool True)),
         (''iot/s/r/d1/status'', True, Some (JBool False))])"
proof -
  let ?W = "run_world 0 (raises_at 2)"
  let ?R = "publish_raises ?W" and ?d = "length (arg_devices example_args)"
  let ?k = "attempts ?R (publish_pos ?W + ?d) (0 * length (expected_round example_args))"
  let ?q = "publish_pos ?W + ?d + ?k"
  have h1: "first_stop (stop_polls ?W) (poll_pos ?W) 0"
    by (simp only: run_world_env example_stops)
  have h2: "\<not> fails ?R (publish_pos ?W) ?d"
    by (simp add: run_world_env example_lengths example_raises)
  have r: "raises_at 2 2" by (simp add: raises_at_def)
  have k: "?k = 0" by simp
  have j: "attempts ?R ?q ?d = 1" and f: "fails ?R ?q ?d"
    by (simp_all add: run_world_env example_lengths example_raises)
  from main_offline_until_raise[OF h1 h2, unfolded Let_def]
  have "\<exists>out w'. main example_args ?W = Some (out, w') \<and>
      map shape (publishes (trace w')) =
        map shape (publishes (trace ?W)) @ expected_status example_args True @
        take ?k (concat (replicate 0 (expected_round example_args))) @
        take (attempts ?R ?q ?d) (expected_status example_args False) \<and>
      (fails ?R ?q ?d \<longrightarrow> out = Raised PublishError)"
    by (rule conjunct1)
  then obtain out w' where m: "main example_args ?W = Some (out, w')"
    and s: "map shape (publishes (trace w')) =
        map shape (publishes (trace ?W)) @ expected_status example_args True @
        take ?k (concat (replicate 0 (expected_round example_args))) @
        take (attempts ?R ?q ?d) (expected_status example_args False)"
    and o: "fails ?R ?q ?d \<longrightarrow> out = Raised PublishError"
    by (elim exE conjE) (rule that)
  from o f have o': "out = Raised PublishError" by (rule mp)
  from s have s': "map shape (publishes (trace w')) =
        [(''iot/s/r/d1/status'', True, Some (JBool True)),
         (''iot/s/r/d2/status'', True, Some (JBool True)),
         (''iot/s/r/d1/status'', True, Some (JBool False))]"
    unfolding j by (simp add: run_world_env(5) example_expected)
  have "\<exists>out w'. main example_args ?W = Some (out, w') \<and>
      out = Raised PublishError \<and>
      map shape (publishes (trace w')) =
        [(''iot/s/r/d1/status'', True, Some (JBool True)),
         (''iot/s/r/d2/status'', True, Some (JBool True)),
         (''iot/s/r/d1/status'', True, Some (JBool False))]"
    by (intro exI[of _ out] exI[of _ w']) (simp only: m o' s' simp_thms)
  with h1 h2 r show ?thesis by (simp only: simp_thms)
qed

text \<open>
  Against claim C3 as stated: with two devices, the flag set at once and the third publish
  call (the offline status of \<open>d1\<close>) raising, the run makes three publish calls, and none
  of them is the offline status of \<open>d2\<close>.
\<close>

theorem main_offline_second_device_skipped:
  "raises_at 2 2 \<and>
   map_option (\<lambda>r. map shape (publishes (trace (snd r))))
     (main example_args (run_world 0 (raises_at 2))) =
     Some [(''iot/s/r/d1/status'', True, Some (JBool True)),
           (''iot/s/r/d2/status'', True, Some (JBool True)),
           (''iot/s/r/d1/status'', True, Some (JBool False))]"
proof -
  let ?W = "run_world 0 (raises_at 2)"
  let ?R = "publish_raises ?W" and ?d = "length (arg_devices example_args)"
  let ?m = "length (concat (replicate 0 (expected_round example_args)))"
  let ?k = "attempts ?R (publish_pos ?W + ?d) ?m"
  let ?q = "publish_pos ?W + ?d + ?k"
  have h1: "first_stop (stop_polls ?W) (poll_pos ?W) 0"
    by (simp only: run_world_env example_stops)
  have h2: "\<not> fails ?R (publish_pos ?W) ?d"
    by (simp add: run_world_env example_lengths example_raises)
  have j: "attempts ?R ?q ?d = 1"
    by (simp add: run_world_env example_lengths example_raises)
  from main_trace[OF h1 h2] obtain out w' where
    m: "main example_args ?W = Some (out, w')"
    and s: "map shape (publishes (trace w')) =
        map shape (publishes (trace ?W)) @ expected_status example_args True @
        take ?k (concat (replicate 0 (expected_round example_args))) @
        take (attempts ?R ?q ?d) (expected_status example_args False)"
    by (elim exE conjE) (rule that)
  from s have s': "map shape (publishes (trace w')) =
        [(''iot/s/r/d1/status'', True, Some (JBool True)),
         (''iot/s/r/d2/status'', True, Some (JBool True)),
         (''iot/s/r/d1/status'', True, Some (JBool False))]"
    unfolding j by (simp add: run_world_env(5) example_expected)
  have r: "raises_at 2 2" by (simp add: raises_at_def)
  from m s' have "map_option (\<lambda>r. map shape (publishes (trace (snd r)))) (main example_args ?W) =
     Some [(''iot/s/r/d1/status'', True, Some (JBool True)),
           (''iot/s/r/d2/status'', True, Some (JBool True)),
           (''iot/s/r/d1/status'', True, Some (JBool False))]"
    by simp
  with r show ?thesis by (simp only: simp_thms)
qed




end
